theory Spec2Isabelle
  imports Main "HOL-Library.Sublist"
begin

section \<open>Strings, bytes and errors\<close>

text \<open>
  A Python \<open>str\<close> is a sequence of Unicode code points and a \<open>bytes\<close> value a sequence of
  numbers below 256; both are lists of naturals here.  \<open>str\<close> turns an ASCII literal into
  its code points, so that inputs can be written as text.  A backslash is code point 92,
  a newline 10, a carriage return 13, a tab 9, a percent sign 37.
\<close>

type_synonym pystr = "nat list"
type_synonym pybytes = "nat list"

definition str :: "string \<Rightarrow> pystr" where
  "str cs = map of_char cs"

datatype error =
  IndexError | AssertionError | ValueError | TypeError | UnicodeEncodeError | UnicodeDecodeError

text \<open>\<open>s[a:b]\<close> for \<open>0 \<le> a\<close>, \<open>0 \<le> b\<close>; \<open>s[a:]\<close> is \<open>drop a s\<close>.\<close>

definition slice :: "'a list \<Rightarrow> nat \<Rightarrow> nat \<Rightarrow> 'a list" where
  "slice s a b = take (b - a) (drop a s)"

text \<open>\<open>s.startswith(t)\<close>.\<close>

definition startswith :: "pystr \<Rightarrow> pystr \<Rightarrow> bool" where
  "startswith s t = (take (length t) s = t)"

section \<open>Character classes of the regular expressions\<close>

text \<open>
  The patterns are \<open>str\<close> patterns, so \<open>\w\<close>, \<open>\s\<close> and \<open>\d\<close> follow the Unicode
  database of the interpreter.  On ASCII they are fixed; what they do on code points from
  128 on is the table \<open>ucd\<close>, a parameter of every definition that uses one of them.
\<close>

record ucd =
  uni_alnum :: "nat \<Rightarrow> bool"
  uni_space :: "nat \<Rightarrow> bool"
  uni_decimal :: "nat \<Rightarrow> nat option"

definition is_upper :: "nat \<Rightarrow> bool" where
  "is_upper c = (65 \<le> c \<and> c \<le> 90)"

definition is_lower :: "nat \<Rightarrow> bool" where
  "is_lower c = (97 \<le> c \<and> c \<le> 122)"

definition is_digit :: "nat \<Rightarrow> bool" where
  "is_digit c = (48 \<le> c \<and> c \<le> 57)"

definition is_alpha :: "nat \<Rightarrow> bool" where
  "is_alpha c = (is_upper c \<or> is_lower c)"

definition cls_w :: "ucd \<Rightarrow> nat \<Rightarrow> bool" where
  "cls_w U c = (if c < 128 then is_alpha c \<or> is_digit c \<or> c = 95 else uni_alnum U c)"

definition cls_s :: "ucd \<Rightarrow> nat \<Rightarrow> bool" where
  "cls_s U c = (if c < 128 then (9 \<le> c \<and> c \<le> 13) \<or> (28 \<le> c \<and> c \<le> 32) else uni_space U c)"

definition cls_d :: "ucd \<Rightarrow> nat \<Rightarrow> bool" where
  "cls_d U c = (if c < 128 then is_digit c else uni_decimal U c \<noteq> None)"

text \<open>\<open>.\<close> without DOTALL: anything but a newline.\<close>

definition cls_dot :: "nat \<Rightarrow> bool" where
  "cls_dot c = (c \<noteq> 10)"

section \<open>A backtracking matcher\<close>

text \<open>
  The fragment of \<open>re\<close> syntax the module uses: one character of a class, sequence,
  alternation (left first), the greedy star, a capture group, \<open>^\<close> and \<open>$\<close>.  \<open>ms r st\<close>
  lists every way \<open>r\<close> matches from state \<open>st\<close> in the order a backtracking matcher tries
  them, so the head of the list is the match \<open>re\<close> reports.  A state is the position, the
  text from there on, and the spans of the groups set so far.  An iteration of a star
  must consume something.
\<close>

datatype rx = Cls "nat \<Rightarrow> bool" | Eps | Seq rx rx | Alt rx rx | Star rx | Grp nat rx | Bol | Eol

type_synonym caps = "(nat \<times> nat) option list"
type_synonym mstate = "nat \<times> pystr \<times> caps"

function ms :: "rx \<Rightarrow> mstate \<Rightarrow> mstate list" where
  "ms (Cls P) (i, s, g) = (case s of [] \<Rightarrow> [] | c # cs \<Rightarrow> if P c then [(Suc i, cs, g)] else [])"
| "ms Eps st = [st]"
| "ms (Seq a b) st = concat (map (ms b) (ms a st))"
| "ms (Alt a b) st = ms a st @ ms b st"
| "ms (Star a) (i, s, g) =
     concat (map (ms (Star a)) (filter (\<lambda>(j, t, h). length t < length s) (ms a (i, s, g))))
     @ [(i, s, g)]"
| "ms (Grp n a) (i, s, g) = map (\<lambda>(j, t, h). (j, t, h[n := Some (i, j)])) (ms a (i, s, g))"
| "ms Bol (i, s, g) = (if i = 0 then [(i, s, g)] else [])"
| "ms Eol (i, s, g) = (if s = [] \<or> s = [10] then [(i, s, g)] else [])"
  by pat_completeness auto
termination
  by (relation "inv_image (less_than <*lex*> less_than) (\<lambda>(r, (i, s, g)). (size r, length s))") auto

definition Lit :: "nat \<Rightarrow> rx" where
  "Lit c = Cls (\<lambda>x. x = c)"

fun Lits :: "pystr \<Rightarrow> rx" where
  "Lits [] = Eps"
| "Lits [c] = Lit c"
| "Lits (c # cs) = Seq (Lit c) (Lits cs)"

definition Plus :: "rx \<Rightarrow> rx" where
  "Plus a = Seq a (Star a)"

definition Opt :: "rx \<Rightarrow> rx" where
  "Opt a = Alt a Eps"

fun Seqs :: "rx list \<Rightarrow> rx" where
  "Seqs [] = Eps"
| "Seqs [a] = a"
| "Seqs (a # as) = Seq a (Seqs as)"

text \<open>\<open>a{1,n+1}\<close> is \<open>Seq a (Upto n a)\<close>: greedy, at most \<open>n\<close> more.\<close>

fun Upto :: "nat \<Rightarrow> rx \<Rightarrow> rx" where
  "Upto 0 a = Eps"
| "Upto (Suc n) a = Opt (Seq a (Upto n a))"

text \<open>The number of capture groups; group \<open>k\<close> of the pattern is \<open>Grp (k - 1)\<close>.\<close>

fun ngroups :: "rx \<Rightarrow> nat" where
  "ngroups (Seq a b) = max (ngroups a) (ngroups b)"
| "ngroups (Alt a b) = max (ngroups a) (ngroups b)"
| "ngroups (Star a) = ngroups a"
| "ngroups (Grp n a) = max (Suc n) (ngroups a)"
| "ngroups _ = 0"

text \<open>
  The match that starts at position \<open>i\<close>, if any; with \<open>adv\<close> an empty match is passed
  over (what the scanner of \<open>finditer\<close> asks for right after an empty match).
\<close>

definition first_match :: "rx \<Rightarrow> bool \<Rightarrow> nat \<Rightarrow> pystr \<Rightarrow> (nat \<times> caps) option" where
  "first_match r adv i s =
     (case filter (\<lambda>(j, t, h). \<not> adv \<or> i < j) (ms r (i, s, replicate (ngroups r) None)) of
        [] \<Rightarrow> None
      | (j, t, h) # _ \<Rightarrow> Some (j, h))"

text \<open>\<open>search\<close>: the leftmost position with a match.\<close>

fun rx_scan :: "rx \<Rightarrow> nat \<Rightarrow> pystr \<Rightarrow> (nat \<times> nat \<times> caps) option" where
  "rx_scan r i [] =
     (case first_match r False i [] of Some (j, h) \<Rightarrow> Some (i, j, h) | None \<Rightarrow> None)"
| "rx_scan r i (c # cs) =
     (case first_match r False i (c # cs) of
        Some (j, h) \<Rightarrow> Some (i, j, h)
      | None \<Rightarrow> rx_scan r (Suc i) cs)"

text \<open>
  \<open>finditer\<close>: the matches at position \<open>i\<close> are the first match there and, when that one
  is empty, the first non-empty one there; the scan goes on after the end \<open>lo\<close> of the
  last match.
\<close>

definition at_index :: "rx \<Rightarrow> nat \<Rightarrow> pystr \<Rightarrow> (nat \<times> caps) list" where
  "at_index r i s =
     (case first_match r False i s of
        None \<Rightarrow> []
      | Some (j, h) \<Rightarrow>
          if i < j then [(j, h)]
          else (j, h) # (case first_match r True i s of None \<Rightarrow> [] | Some x \<Rightarrow> [x]))"

fun rx_iter :: "rx \<Rightarrow> nat \<Rightarrow> nat \<Rightarrow> pystr \<Rightarrow> (nat \<times> nat \<times> caps) list" where
  "rx_iter r lo i [] =
     map (\<lambda>(j, h). (i, j, h)) (if i < lo then [] else at_index r i [])"
| "rx_iter r lo i (c # cs) =
     (let found = (if i < lo then [] else at_index r i (c # cs));
          lo' = (if found = [] then lo else fst (last found))
      in map (\<lambda>(j, h). (i, j, h)) found @ rx_iter r lo' (Suc i) cs)"

section \<open>Match objects and compiled patterns\<close>

record mobj =
  m_string :: pystr
  m_start :: nat
  m_end :: nat
  m_caps :: caps

definition mk_mobj :: "pystr \<Rightarrow> nat \<times> nat \<times> caps \<Rightarrow> mobj" where
  "mk_mobj s x = (case x of (a, b, h) \<Rightarrow> \<lparr>m_string = s, m_start = a, m_end = b, m_caps = h\<rparr>)"

text \<open>\<open>m.group(i)\<close>: the text of group \<open>i\<close>, \<open>None\<close> for a group that took no part.\<close>

definition m_group0 :: "mobj \<Rightarrow> pystr" where
  "m_group0 mo = slice (m_string mo) (m_start mo) (m_end mo)"

definition m_group :: "mobj \<Rightarrow> int \<Rightarrow> error + pystr option" where
  "m_group mo i =
     (if i = 0 then Inr (Some (m_group0 mo))
      else if 1 \<le> i \<and> i \<le> int (length (m_caps mo))
      then Inr (map_option (\<lambda>(a, b). slice (m_string mo) a b) (m_caps mo ! (nat i - 1)))
      else Inl IndexError)"

definition m_groups :: "mobj \<Rightarrow> pystr option list" where
  "m_groups mo = map (map_option (\<lambda>(a, b). slice (m_string mo) a b)) (m_caps mo)"

text \<open>
  A compiled pattern is an object with the methods \<open>match\<close>, \<open>search\<close> and \<open>finditer\<close>;
  \<open>re_compile\<close> builds the one of a pattern of the fragment above.
\<close>

record pattern =
  p_match :: "pystr \<Rightarrow> mobj option"
  p_search :: "pystr \<Rightarrow> mobj option"
  p_finditer :: "pystr \<Rightarrow> mobj list"

definition re_compile :: "rx \<Rightarrow> pattern" where
  "re_compile r =
     \<lparr>p_match = (\<lambda>s. map_option (\<lambda>(j, h). mk_mobj s (0, j, h)) (first_match r False 0 s)),
      p_search = (\<lambda>s. map_option (mk_mobj s) (rx_scan r 0 s)),
      p_finditer = (\<lambda>s. map (mk_mobj s) (rx_iter r 0 0 s))\<rparr>"

section \<open>The class Re\<close>

text \<open>
  The wrapper keeps the compiled pattern \<open>p\<close> and the last match \<open>m\<close>.  (The slot \<open>r\<close>, the
  source text of the pattern, is read by \<open>__str__\<close> and \<open>__repr__\<close> only and is left out.)
  A method that assigns \<open>self.m\<close> returns the new object beside its result.
\<close>

record Re =
  p :: pattern
  m :: "mobj option"

definition Re_init :: "pattern \<Rightarrow> Re" where
  "Re_init pat = \<lparr>p = pat, m = None\<rparr>"

definition Re_len :: "Re \<Rightarrow> nat" where
  "Re_len self = (case m self of None \<Rightarrow> 0 | Some mo \<Rightarrow> length (m_groups mo) + 1)"

definition Re_getitem :: "Re \<Rightarrow> int \<Rightarrow> error + pystr option" where
  "Re_getitem self i = (case m self of None \<Rightarrow> Inl IndexError | Some mo \<Rightarrow> m_group mo i)"

definition Re_match :: "Re \<Rightarrow> pystr \<Rightarrow> Re \<times> mobj option" where
  "Re_match self string = (let r = p_match (p self) string in (self\<lparr>m := r\<rparr>, r))"

definition Re_search :: "Re \<Rightarrow> pystr \<Rightarrow> Re \<times> mobj option" where
  "Re_search self string = (let r = p_search (p self) string in (self\<lparr>m := r\<rparr>, r))"

text \<open>
  \<open>sublist\<close>: the items of the list are strings or other objects; \<open>repl\<close> reads the
  object (it is called with \<open>self.m\<close> set to the match at hand) and returns an item.
  \<open>sublist_matches\<close> is the inner loop over the matches of one string, from position
  \<open>pos\<close>; it returns what it appended, the final \<open>pos\<close> and the object.
\<close>

datatype 'a item = Str pystr | Obj 'a

fun sublist_matches ::
  "(Re \<Rightarrow> 'a item) \<Rightarrow> pystr \<Rightarrow> mobj list \<Rightarrow> nat \<Rightarrow> Re \<Rightarrow> 'a item list \<times> nat \<times> Re" where
  "sublist_matches repl item [] pos self = ([], pos, self)"
| "sublist_matches repl item (mo # rest) pos self =
     (let start = m_start mo; end = m_end mo;
          frag = (if start > pos then [Str (slice item pos start)] else []);
          self' = self\<lparr>m := Some mo\<rparr>;
          (out, pos', self'') = sublist_matches repl item rest end self'
      in (frag @ [repl self'] @ out, pos', self''))"

fun Re_sublist :: "Re \<Rightarrow> (Re \<Rightarrow> 'a item) \<Rightarrow> 'a item list \<Rightarrow> Re \<times> 'a item list" where
  "Re_sublist self repl [] = (self, [])"
| "Re_sublist self repl (Obj x # list) =
     (let (self', result) = Re_sublist self repl list in (self', Obj x # result))"
| "Re_sublist self repl (Str item # list) =
     (let (out, pos, self') = sublist_matches repl item (p_finditer (p self) item) 0 self;
          tail = (if pos < length item then [Str (drop pos item)] else []);
          (self'', result) = Re_sublist self' repl list
      in (self'', out @ tail @ result))"

text \<open>
  What \<open>finditer\<close> promises about the matches of a string \<open>s\<close>: they are matches of
  \<open>s\<close>, lie within it, and each starts no earlier than the one before ends (\<open>pos\<close>).
\<close>

fun spans_ok :: "pystr \<Rightarrow> nat \<Rightarrow> mobj list \<Rightarrow> bool" where
  "spans_ok s pos [] = (pos \<le> length s)"
| "spans_ok s pos (mo # rest) =
     (m_string mo = s \<and> pos \<le> m_start mo \<and> m_start mo \<le> m_end mo \<and> m_end mo \<le> length s \<and>
      spans_ok s (m_end mo) rest)"

text \<open>The text an item of the result stands for, when \<open>repl\<close> hands back the match.\<close>

definition item_text :: "mobj option item \<Rightarrow> pystr" where
  "item_text x = (case x of Str f \<Rightarrow> f | Obj None \<Rightarrow> [] | Obj (Some mo) \<Rightarrow> m_group0 mo)"

text \<open>An item of that run, with \<open>repl\<close> called for the match it holds.\<close>

definition render :: "Re \<Rightarrow> (Re \<Rightarrow> 'a item) \<Rightarrow> mobj option item \<Rightarrow> 'a item" where
  "render self repl x = (case x of Str f \<Rightarrow> Str f | Obj mo \<Rightarrow> repl (self\<lparr>m := mo\<rparr>))"

section \<open>Escaped splitting\<close>

text \<open>\<open>s.split(sep)\<close>: cut at the occurrences of \<open>sep\<close>, leftmost first, not overlapping;
  an empty separator raises ValueError.\<close>

function split_aux :: "pystr \<Rightarrow> pystr \<Rightarrow> pystr \<Rightarrow> pystr list" where
  "split_aux sep acc [] = [acc]"
| "split_aux sep acc (c # cs) =
     (if sep \<noteq> [] \<and> startswith (c # cs) sep
      then acc # split_aux sep [] (drop (length sep) (c # cs))
      else split_aux sep (acc @ [c]) cs)"
  by pat_completeness auto
termination
  by (relation "measure (\<lambda>(sep, acc, s). length s)") (auto simp: neq_Nil_conv)

definition py_split :: "pystr \<Rightarrow> pystr \<Rightarrow> error + pystr list" where
  "py_split s sep = (if sep = [] then Inl ValueError else Inr (split_aux sep [] s))"

text \<open>The pattern \<open>\\+$\<close>: a run of backslashes up to \<open>$\<close>.\<close>

definition trailing_backslash_rx :: rx where
  "trailing_backslash_rx = Seq (Plus (Lit 92)) Eol"

fun split_escaped_loop :: "pystr \<Rightarrow> pystr list \<Rightarrow> pystr list \<Rightarrow> bool \<Rightarrow> error + pystr list" where
  "split_escaped_loop char [] parts trailing_backslash = Inr parts"
| "split_escaped_loop char (piece # pieces) parts trailing_backslash =
     (if trailing_backslash \<and> parts = [] then Inl IndexError
      else
        let parts' = (if trailing_backslash then butlast parts @ [last parts @ char @ piece]
                      else parts @ [piece]);
            trailing_backslash' =
              (case p_search (re_compile trailing_backslash_rx) piece of
                 None \<Rightarrow> False
               | Some mo \<Rightarrow> length (m_group0 mo) mod 2 \<noteq> 0)
        in split_escaped_loop char pieces parts' trailing_backslash')"

definition split_escaped_string :: "pystr \<Rightarrow> pystr \<Rightarrow> error + pystr list" where
  "split_escaped_string string char =
     (case py_split string char of
        Inl e \<Rightarrow> Inl e
      | Inr pieces \<Rightarrow> split_escaped_loop char pieces [] False)"

section \<open>Dates\<close>

text \<open>\<open>int(s)\<close> on a string of decimal digits (of any script); ValueError otherwise.\<close>

definition digit_value :: "ucd \<Rightarrow> nat \<Rightarrow> nat option" where
  "digit_value U c = (if c < 128 then (if is_digit c then Some (c - 48) else None) else uni_decimal U c)"

fun py_int_acc :: "ucd \<Rightarrow> int \<Rightarrow> pystr \<Rightarrow> error + int" where
  "py_int_acc U acc [] = Inr acc"
| "py_int_acc U acc (c # cs) =
     (case digit_value U c of None \<Rightarrow> Inl ValueError | Some v \<Rightarrow> py_int_acc U (10 * acc + int v) cs)"

definition py_int :: "ucd \<Rightarrow> pystr \<Rightarrow> error + int" where
  "py_int U s = (if s = [] then Inl ValueError else py_int_acc U 0 s)"

text \<open>The pattern \<open>(\d{1,4})\D(\d{1,2})(?:\D(\d{1,4}))?\<close>.\<close>

definition parse_date_rx :: "ucd \<Rightarrow> rx" where
  "parse_date_rx U =
     Seqs [Grp 0 (Seq (Cls (cls_d U)) (Upto 3 (Cls (cls_d U)))),
           Cls (\<lambda>c. \<not> cls_d U c),
           Grp 1 (Seq (Cls (cls_d U)) (Upto 1 (Cls (cls_d U)))),
           Opt (Seq (Cls (\<lambda>c. \<not> cls_d U c)) (Grp 2 (Seq (Cls (cls_d U)) (Upto 3 (Cls (cls_d U))))))]"

text \<open>
  \<open>parse_date\<close>; the current date (\<open>date.today()\<close>) is the pair \<open>today_year\<close>,
  \<open>today_month\<close>.  \<open>d\<close>, \<open>m\<close> and \<open>y\<close> are the three groups, \<open>None\<close> for a group that
  took no part; \<open>len(None)\<close> and \<open>int(None)\<close> raise TypeError.
\<close>

definition parse_date_year :: "ucd \<Rightarrow> int \<Rightarrow> int \<Rightarrow> pystr \<Rightarrow> pystr option \<Rightarrow> error + int" where
  "parse_date_year U today_year today_month mm y =
     (if y = None \<or> y = Some [] then
        (case py_int U mm of
           Inl e \<Rightarrow> Inl e
         | Inr mi \<Rightarrow> if today_month - mi \<ge> 6 then Inr (today_year + 1) else Inr today_year)
      else
        (case py_int U (the y) of
           Inl e \<Rightarrow> Inl e
         | Inr yi \<Rightarrow> if yi < 50 then Inr (yi + 2000) else if yi < 1000 then Inr (yi + 1900) else Inr yi))"

definition parse_date :: "ucd \<Rightarrow> int \<Rightarrow> int \<Rightarrow> pystr \<Rightarrow> error + (int \<times> int \<times> int) option" where
  "parse_date U today_year today_month string =
     (case p_search (re_compile (parse_date_rx U)) string of
        None \<Rightarrow> Inr None
      | Some mo \<Rightarrow>
          (case m_groups mo of
             [d0, m0, y0] \<Rightarrow>
               (case d0 of
                  None \<Rightarrow> Inl TypeError
                | Some d1 \<Rightarrow>
                    let (d, mm, y) = (if length d1 = 4 then (y0, m0, d0) else (d0, m0, y0))
                    in if d = None \<or> d = Some [] then Inr None
                       else (case mm of
                               None \<Rightarrow> Inl TypeError
                             | Some m1 \<Rightarrow>
                                 (case parse_date_year U today_year today_month m1 y of
                                    Inl e \<Rightarrow> Inl e
                                  | Inr yi \<Rightarrow>
                                      (case py_int U m1 of
                                         Inl e \<Rightarrow> Inl e
                                       | Inr mi \<Rightarrow>
                                           (case py_int U (the d) of
                                              Inl e \<Rightarrow> Inl e
                                            | Inr di \<Rightarrow> Inr (Some (yi, mi, di)))))))
           | _ \<Rightarrow> Inl ValueError))"

section \<open>Links\<close>

text \<open>The patterns of the module, in the order of the source.\<close>

definition scheme_rx :: "ucd \<Rightarrow> rx" where
  "scheme_rx U = Seq (Cls (cls_w U)) (Star (Cls (\<lambda>c. cls_w U c \<or> c = 43 \<or> c = 45 \<or> c = 46)))"

definition is_uri_re :: "ucd \<Rightarrow> Re" where
  "is_uri_re U = Re_init (re_compile (Seqs [Bol, Grp 0 (scheme_rx U), Lit 58]))"

definition is_url_re :: "ucd \<Rightarrow> Re" where
  "is_url_re U = Re_init (re_compile (Seqs [Bol, Grp 0 (scheme_rx U), Lits (str ''://'')]))"

definition is_www_link_re :: "ucd \<Rightarrow> Re" where
  "is_www_link_re U = Re_init (re_compile
     (Seqs [Bol, Lits (str ''www.''),
            Plus (Grp 0 (Seq (Plus (Cls (\<lambda>c. cls_w U c \<or> c = 45))) (Lit 46))),
            Plus (Cls (\<lambda>c. cls_w U c \<or> c = 45))]))"

definition is_email_re :: "ucd \<Rightarrow> Re" where
  "is_email_re U = Re_init (re_compile
     (Seqs [Bol,
            Grp 0 (Alt (Seq (Lits (str ''mailto:'')) (Plus (Cls (\<lambda>c. \<not> cls_s U c))))
                       (Plus (Cls (\<lambda>c. \<not> (cls_s U c \<or> c = 58))))),
            Lit 64, Plus (Cls (\<lambda>c. \<not> cls_s U c)), Lit 46, Plus (Cls (cls_w U)),
            Opt (Grp 1 (Seq (Lit 63) (Plus (Cls cls_dot)))),
            Eol]))"

definition is_path_re :: Re where
  "is_path_re = Re_init (re_compile
     (Seq Bol (Grp 0
        (Alt (Lit 47)
        (Alt (Seqs [Lit 46, Opt (Lit 46), Cls (\<lambda>c. c = 47 \<or> c = 92)])
        (Alt (Seqs [Lit 126, Star (Cls cls_dot), Cls (\<lambda>c. c = 47 \<or> c = 92)])
             (Seqs [Cls is_alpha, Lit 58, Lit 92])))))))"

definition is_win32_share_re :: Re where
  "is_win32_share_re = Re_init (re_compile
     (Seq Bol (Grp 0
        (Alt (Seqs [Lit 92, Lit 92, Plus (Cls (\<lambda>c. c \<noteq> 92)), Lit 92, Plus (Cls cls_dot)])
             (Lits (str ''smb://''))))))"

definition is_interwiki_re :: "ucd \<Rightarrow> Re" where
  "is_interwiki_re U = Re_init (re_compile
     (Seqs [Bol, Grp 0 (scheme_rx U), Lit 63, Grp 1 (Star (Cls cls_dot))]))"

text \<open>\<open>re.sub\<close> with a pattern that is one character class: every character of the
  class is replaced by what the function returns for it.\<close>

definition re_sub_class :: "(nat \<Rightarrow> bool) \<Rightarrow> (nat \<Rightarrow> pystr) \<Rightarrow> pystr \<Rightarrow> pystr" where
  "re_sub_class P f s = concat (map (\<lambda>c. if P c then f c else [c]) s)"

definition valid_interwiki_key :: "ucd \<Rightarrow> pystr \<Rightarrow> error + pystr" where
  "valid_interwiki_key U name =
     (let key = re_sub_class (\<lambda>c. \<not> (cls_w U c \<or> c = 43 \<or> c = 45 \<or> c = 46)) (\<lambda>c. str ''_'') name
      in case key of
           [] \<Rightarrow> Inl IndexError
         | k # ks \<Rightarrow> if k = 45 \<or> k = 46 then Inr (str ''_'' @ ks) else Inr key)"

text \<open>
  \<open>link_type\<close>.  The pattern objects are globals of the module; a call leaves its match
  in them, and the result depends on the link alone.
\<close>

definition matches :: "Re \<Rightarrow> pystr \<Rightarrow> bool" where
  "matches self link = (snd (Re_match self link) \<noteq> None)"

definition link_type :: "ucd \<Rightarrow> pystr \<Rightarrow> error + pystr option" where
  "link_type U link =
     (if matches (is_url_re U) link then
        (if startswith link (str ''zim+'') then Inr (Some (str ''notebook''))
         else Re_getitem (fst (Re_match (is_url_re U) link)) 1)
      else if startswith link (str ''file:/'') then Inr (Some (str ''file''))
      else if matches (is_email_re U) link then Inr (Some (str ''mailto''))
      else if matches (is_www_link_re U) link then Inr (Some (str ''http''))
      else if 64 \<in> set link \<and> (startswith link (str ''mid:'') \<or> startswith link (str ''cid:''))
        then Inr (Some (take 3 link))
      else if matches is_win32_share_re link then Inr (Some (str ''smb''))
      else if matches is_path_re link then Inr (Some (str ''file''))
      else if matches (is_interwiki_re U) link then Inr (Some (str ''interwiki''))
      else Inr (Some (str ''page'')))"

section \<open>Backslash escapes\<close>

text \<open>The function \<open>_escape\<close>; \<open>char\<close> is the matched character.\<close>

definition escape_match :: "nat \<Rightarrow> pystr" where
  "escape_match char =
     (if char = 10 then [92, 110]
      else if char = 13 then [92, 114]
      else if char = 9 then [92, 116]
      else [92, char])"

text \<open>
  \<open>escape_string\<close>.  The pattern is the class of newline, carriage return, tab and
  backslash with \<open>chars\<close> spliced in behind them, so \<open>chars\<close> is read here as the list of
  the characters it adds to the class; that is what \<open>re\<close> makes of it when \<open>chars\<close> holds
  none of \<open>]\<close>, \<open>-\<close> and backslash (\<open>plain_class_chars\<close>), which have a meaning of their own
  inside a class.
\<close>

definition plain_class_chars :: "pystr \<Rightarrow> bool" where
  "plain_class_chars chars = (92 \<notin> set chars \<and> 93 \<notin> set chars \<and> 45 \<notin> set chars)"

definition escape_string :: "pystr \<Rightarrow> pystr \<Rightarrow> pystr" where
  "escape_string string chars =
     re_sub_class (\<lambda>c. c = 10 \<or> c = 13 \<or> c = 9 \<or> c = 92 \<or> c \<in> set chars) escape_match string"

text \<open>The function \<open>_unescape\<close>; its argument is the matched text, \<open>char\<close> its last character.\<close>

definition unescape_match :: "pystr \<Rightarrow> pystr" where
  "unescape_match mt =
     (let char = last mt in
      if char = 110 then [10] else if char = 116 then [9] else [char])"

text \<open>\<open>unescape_string\<close>: \<open>re.sub\<close> with a backslash and one character that is no newline.\<close>

fun unescape_string :: "pystr \<Rightarrow> pystr" where
  "unescape_string (b # c # rest) =
     (if b = 92 \<and> cls_dot c then unescape_match [b, c] @ unescape_string rest
      else b # unescape_string (c # rest))"
| "unescape_string s = s"

section \<open>Percent encoding\<close>

text \<open>Results that may be an error: put a character in front, join two results.\<close>

definition cons_e :: "'a \<Rightarrow> error + 'a list \<Rightarrow> error + 'a list" where
  "cons_e x r = (case r of Inl e \<Rightarrow> Inl e | Inr xs \<Rightarrow> Inr (x # xs))"

definition app_e :: "error + 'a list \<Rightarrow> error + 'a list \<Rightarrow> error + 'a list" where
  "app_e a b = (case a of Inl e \<Rightarrow> Inl e | Inr xs \<Rightarrow> (case b of Inl e \<Rightarrow> Inl e | Inr ys \<Rightarrow> Inr (xs @ ys)))"

text \<open>
  \<open>s.encode('UTF-8')\<close>: a surrogate (D800 to DFFF) cannot be encoded.  (A \<open>str\<close> holds
  no code point above 10FFFF.)
\<close>

definition utf8_encode_char :: "nat \<Rightarrow> error + pybytes" where
  "utf8_encode_char c =
     (if c < 128 then Inr [c]
      else if c < 2048 then Inr [192 + c div 64, 128 + c mod 64]
      else if c < 65536 then
        (if 55296 \<le> c \<and> c \<le> 57343 then Inl UnicodeEncodeError
         else Inr [224 + c div 4096, 128 + c div 64 mod 64, 128 + c mod 64])
      else if c < 1114112 then
        Inr [240 + c div 262144, 128 + c div 4096 mod 64, 128 + c div 64 mod 64, 128 + c mod 64]
      else Inl UnicodeEncodeError)"

fun utf8_encode :: "pystr \<Rightarrow> error + pybytes" where
  "utf8_encode [] = Inr []"
| "utf8_encode (c # cs) = app_e (utf8_encode_char c) (utf8_encode cs)"

text \<open>
  \<open>b.decode('UTF-8')\<close>, strict: the shortest form only, no surrogates, nothing above
  10FFFF; anything else raises UnicodeDecodeError, which is the result \<open>None\<close> here.
\<close>

definition is_cont :: "nat \<Rightarrow> bool" where
  "is_cont b = (128 \<le> b \<and> b \<le> 191)"

fun utf8_decode :: "pybytes \<Rightarrow> pystr option" where
  "utf8_decode [] = Some []"
| "utf8_decode (b0 # bs) =
     (if b0 < 128 then map_option ((#) b0) (utf8_decode bs)
      else if 194 \<le> b0 \<and> b0 \<le> 223 then
        (case bs of
           b1 # r \<Rightarrow>
             if is_cont b1 then map_option ((#) ((b0 - 192) * 64 + (b1 - 128))) (utf8_decode r)
             else None
         | _ \<Rightarrow> None)
      else if 224 \<le> b0 \<and> b0 \<le> 239 then
        (case bs of
           b1 # b2 # r \<Rightarrow>
             if (if b0 = 224 then 160 else 128) \<le> b1 \<and> b1 \<le> (if b0 = 237 then 159 else 191)
                \<and> is_cont b2
             then map_option ((#) ((b0 - 224) * 4096 + (b1 - 128) * 64 + (b2 - 128))) (utf8_decode r)
             else None
         | _ \<Rightarrow> None)
      else if 240 \<le> b0 \<and> b0 \<le> 244 then
        (case bs of
           b1 # b2 # b3 # r \<Rightarrow>
             if (if b0 = 240 then 144 else 128) \<le> b1 \<and> b1 \<le> (if b0 = 244 then 143 else 191)
                \<and> is_cont b2 \<and> is_cont b3
             then map_option ((#) ((b0 - 240) * 262144 + (b1 - 128) * 4096 + (b2 - 128) * 64 + (b3 - 128)))
                    (utf8_decode r)
             else None
         | _ \<Rightarrow> None)
      else None)"

definition URL_ENCODE_DATA :: int where "URL_ENCODE_DATA = 0"
definition URL_ENCODE_PATH :: int where "URL_ENCODE_PATH = 1"
definition URL_ENCODE_READABLE :: int where "URL_ENCODE_READABLE = 2"

text \<open>\<open>'%%%02X' % b\<close>: a percent sign and two upper-case hex digits.\<close>

definition hex_digit :: "nat \<Rightarrow> nat" where
  "hex_digit d = (if d < 10 then 48 + d else 55 + d)"

definition percent_byte :: "nat \<Rightarrow> pystr" where
  "percent_byte b = [37, hex_digit (b div 16), hex_digit (b mod 16)]"

text \<open>The classes \<open>[^A-Za-z0-9\-_.~]\<close> and \<open>[^A-Za-z0-9\-_.~/]\<close>.\<close>

definition url_unreserved :: "nat \<Rightarrow> bool" where
  "url_unreserved c = (is_alpha c \<or> is_digit c \<or> c = 45 \<or> c = 95 \<or> c = 46 \<or> c = 126)"

text \<open>The functions \<open>_url_encode\<close> and \<open>_url_encode_readable\<close>, on the matched character.\<close>

definition url_encode_match :: "nat \<Rightarrow> error + pystr" where
  "url_encode_match c =
     (case utf8_encode [c] of Inl e \<Rightarrow> Inl e | Inr data \<Rightarrow> Inr (concat (map percent_byte data)))"

definition url_encode_readable_match :: "nat \<Rightarrow> error + pystr" where
  "url_encode_readable_match i = (if i = 32 \<or> i > 127 then url_encode_match i else Inr [i])"

text \<open>\<open>re.sub\<close> with a one-character class and a function that may raise.\<close>

fun re_sub_class_e :: "(nat \<Rightarrow> bool) \<Rightarrow> (nat \<Rightarrow> error + pystr) \<Rightarrow> pystr \<Rightarrow> error + pystr" where
  "re_sub_class_e P f [] = Inr []"
| "re_sub_class_e P f (c # cs) =
     app_e (if P c then f c else Inr [c]) (re_sub_class_e P f cs)"

definition url_encode :: "pystr \<Rightarrow> int \<Rightarrow> error + pystr" where
  "url_encode url mode =
     (if mode = URL_ENCODE_DATA then
        re_sub_class_e (\<lambda>c. \<not> url_unreserved c) url_encode_match url
      else if mode = URL_ENCODE_PATH then
        re_sub_class_e (\<lambda>c. \<not> (url_unreserved c \<or> c = 47)) url_encode_match url
      else if mode = URL_ENCODE_READABLE then
        re_sub_class_e (\<lambda>c. \<not> url_unreserved c) url_encode_readable_match url
      else Inl AssertionError)"

text \<open>The functions \<open>_url_decode\<close> and \<open>_url_decode_bytes\<close>, on the numbers \<open>ords\<close>.\<close>

definition url_decode_match :: "nat list \<Rightarrow> error + pystr" where
  "url_decode_match ords = (case utf8_decode ords of None \<Rightarrow> Inl UnicodeDecodeError | Some t \<Rightarrow> Inr t)"

definition url_decode_bytes_match :: "nat list \<Rightarrow> error + pybytes" where
  "url_decode_bytes_match ords = Inr ords"

text \<open>Hex digits \<open>[a-fA-F0-9]\<close> and \<open>int(h, 16)\<close> of one of them.\<close>

definition is_hex :: "nat \<Rightarrow> bool" where
  "is_hex c = (is_digit c \<or> (97 \<le> c \<and> c \<le> 102) \<or> (65 \<le> c \<and> c \<le> 70))"

definition hex_value :: "nat \<Rightarrow> nat" where
  "hex_value c = (if is_digit c then c - 48 else if 97 \<le> c then c - 87 else c - 55)"

text \<open>The classes \<open>[0-7]\<close> and \<open>[a-fA-F89]\<close> of the first digit of an escape.\<close>

definition low_hex :: "nat \<Rightarrow> bool" where
  "low_hex c = (48 \<le> c \<and> c \<le> 55)"

definition high_hex :: "nat \<Rightarrow> bool" where
  "high_hex c = (c = 56 \<or> c = 57 \<or> (97 \<le> c \<and> c \<le> 102) \<or> (65 \<le> c \<and> c \<le> 70))"

text \<open>
  \<open>re.sub\<close> with a pattern \<open>(%XY)+\<close>, \<open>X\<close> in the class \<open>P\<close> and \<open>Y\<close> a hex digit: a
  longest run of such escapes is one match, and \<open>f\<close> is called with the numbers \<open>ords\<close>
  of the run.  \<open>acc\<close> holds the numbers of the run being read.
\<close>

definition flush_run :: "(nat list \<Rightarrow> error + nat list) \<Rightarrow> nat list \<Rightarrow> error + nat list" where
  "flush_run f acc = (if acc = [] then Inr [] else f acc)"

fun sub_escapes ::
  "(nat \<Rightarrow> bool) \<Rightarrow> (nat list \<Rightarrow> error + nat list) \<Rightarrow> nat list \<Rightarrow> nat list \<Rightarrow> error + nat list" where
  "sub_escapes P f acc (c # a # b # rest) =
     (if c = 37 \<and> P a \<and> is_hex b
      then sub_escapes P f (acc @ [hex_value a * 16 + hex_value b]) rest
      else app_e (flush_run f acc) (cons_e c (sub_escapes P f [] (a # b # rest))))"
| "sub_escapes P f acc (c # cs) = app_e (flush_run f acc) (cons_e c (sub_escapes P f [] cs))"
| "sub_escapes P f acc [] = flush_run f acc"

text \<open>\<open>s.replace(old, new)\<close>.\<close>

function py_replace :: "pystr \<Rightarrow> pystr \<Rightarrow> pystr \<Rightarrow> pystr" where
  "py_replace old new [] = (if old = [] then new else [])"
| "py_replace old new (c # cs) =
     (if old = [] then new @ c # py_replace old new cs
      else if startswith (c # cs) old then new @ py_replace old new (drop (length old) (c # cs))
      else c # py_replace old new cs)"
  by pat_completeness auto
termination
  by (relation "measure (\<lambda>(old, new, s). length s)") (auto simp: neq_Nil_conv)

text \<open>
  \<open>url_decode\<close>.  The first pass handles the escapes below 80 (or, in the readable
  mode, \<open>%20\<close> alone); the second turns the runs of escapes from 80 on into bytes and
  decodes everything, and is dropped when that raises UnicodeDecodeError.
\<close>

definition url_decode :: "pystr \<Rightarrow> int \<Rightarrow> error + pystr" where
  "url_decode url mode =
     (case (if mode = URL_ENCODE_READABLE then Inr (py_replace (str ''%20'') (str '' '') url)
            else sub_escapes low_hex url_decode_match [] url) of
        Inl e \<Rightarrow> Inl e
      | Inr url1 \<Rightarrow>
          (case utf8_encode url1 of
             Inl e \<Rightarrow> Inl e
           | Inr bs \<Rightarrow>
               (case sub_escapes high_hex url_decode_bytes_match [] bs of
                  Inl e \<Rightarrow> Inl e
                | Inr data \<Rightarrow>
                    (case utf8_decode data of
                       None \<Rightarrow> Inr url1
                     | Some url2 \<Rightarrow> Inr url2))))"

text \<open>
  For the proofs: the substitution of \<open>sub_escapes\<close> done escape by escape (it is the
  same when \<open>f\<close> returns the numbers it is given); a code point that UTF-8 can encode;
  a text that holds an escape from 80 on.
\<close>

fun flat_sub :: "(nat \<Rightarrow> bool) \<Rightarrow> nat list \<Rightarrow> nat list" where
  "flat_sub P (c # a # b # rest) =
     (if c = 37 \<and> P a \<and> is_hex b then (hex_value a * 16 + hex_value b) # flat_sub P rest
      else c # flat_sub P (a # b # rest))"
| "flat_sub P (c # cs) = c # flat_sub P cs"
| "flat_sub P [] = []"

definition scalar :: "nat \<Rightarrow> bool" where
  "scalar c = (c < 55296 \<or> (57343 < c \<and> c < 1114112))"

fun has_high_escape :: "nat list \<Rightarrow> bool" where
  "has_high_escape (c # a # b # rest) =
     ((c = 37 \<and> high_hex a \<and> is_hex b) \<or> has_high_escape (a # b # rest))"
| "has_high_escape _ = False"

section \<open>Properties of Re\<close>

lemma ms_caps_length:
  "st' \<in> set (ms r st) \<Longrightarrow> length (snd (snd st')) = length (snd (snd st))"
proof (induction r st arbitrary: st' rule: ms.induct)
  case (1 P i s g)
  then show ?case by (cases s) (auto split: if_splits)
next
  case (2 st)
  then show ?case by simp
next
  case (3 a b st)
  from "3.prems" obtain x where x: "x \<in> set (ms a st)" "st' \<in> set (ms b x)" by auto
  from "3.IH"(2)[OF x] "3.IH"(1)[OF x(1)] show ?case by simp
next
  case (4 a b st)
  from "4.prems" have "st' \<in> set (ms a st) \<or> st' \<in> set (ms b st)" by simp
  then show ?case
  proof
    assume "st' \<in> set (ms a st)"
    then show ?thesis by (rule "4.IH"(1))
  next
    assume "st' \<in> set (ms b st)"
    then show ?thesis by (rule "4.IH"(2))
  qed
next
  case (5 a i s g)
  let ?F = "filter (\<lambda>(j, t, h). length t < length s) (ms a (i, s, g))"
  have eq: "ms (Star a) (i, s, g) = concat (map (ms (Star a)) ?F) @ [(i, s, g)]"
    by (rule ms.simps(5))
  from "5.prems" have "st' = (i, s, g) \<or> (\<exists>x \<in> set ?F. st' \<in> set (ms (Star a) x))"
    unfolding eq by (auto simp del: ms.simps)
  then show ?case
  proof
    assume "st' = (i, s, g)"
    then show ?thesis by simp
  next
    assume "\<exists>x \<in> set ?F. st' \<in> set (ms (Star a) x)"
    then obtain x where x: "x \<in> set ?F" "st' \<in> set (ms (Star a) x)" by blast
    from x(1) have m: "x \<in> set (ms a (i, s, g))" by simp
    from "5.IH"(1)[OF m] "5.IH"(2)[OF x] show ?thesis by simp
  qed
next
  case (6 n a i s g)
  from "6.prems" obtain j t h where x: "(j, t, h) \<in> set (ms a (i, s, g))" "st' = (j, t, h[n := Some (i, j)])"
    by auto
  from "6.IH"[OF x(1)] x(2) show ?case by simp
next
  case (7 i s g)
  then show ?case by (simp split: if_splits)
next
  case (8 i s g)
  then show ?case by (simp split: if_splits)
qed

lemma first_match_SomeD:
  "first_match r adv i s = Some (j, h) \<Longrightarrow>
     \<exists>t. (j, t, h) \<in> set (ms r (i, s, replicate (ngroups r) None))"
proof -
  assume a: "first_match r adv i s = Some (j, h)"
  let ?xs = "filter (\<lambda>(j, t, h). \<not> adv \<or> i < j) (ms r (i, s, replicate (ngroups r) None))"
  show ?thesis
  proof (cases ?xs)
    case Nil
    with a show ?thesis unfolding first_match_def by simp
  next
    case (Cons x ys)
    obtain j' t' h' where x: "x = (j', t', h')" by (cases x)
    with a Cons have "j' = j" "h' = h" unfolding first_match_def by simp_all
    with x Cons have "(j, t', h) \<in> set ?xs" by simp
    then have "(j, t', h) \<in> set (ms r (i, s, replicate (ngroups r) None))" by simp
    then show ?thesis by blast
  qed
qed

lemma first_match_caps_length:
  "first_match r adv i s = Some (j, h) \<Longrightarrow> length h = ngroups r"
  using first_match_SomeD[of r adv i s j h] ms_caps_length[of _ r "(i, s, replicate (ngroups r) None)"]
  by fastforce

lemma rx_scan_caps_length:
  "rx_scan r i s = Some (a, b, h) \<Longrightarrow> length h = ngroups r"
proof (induction r i s rule: rx_scan.induct)
  case (1 r i)
  then show ?case by (auto split: option.splits dest: first_match_caps_length)
next
  case (2 r i c cs)
  then show ?case by (auto split: option.splits dest: first_match_caps_length)
qed

text \<open>
  C8.  An object that holds no match (fresh, or after a failed \<open>match\<close> or \<open>search\<close>)
  raises IndexError for every index and has length 0; after a successful \<open>match\<close> or
  \<open>search\<close> the length is the number of groups of the match plus one, which for a compiled
  pattern is the number of capture groups of the pattern plus one.
\<close>

theorem Re_no_match_access:
  "(\<forall>self i. m self = None \<longrightarrow> Re_getitem self i = Inl IndexError \<and> Re_len self = 0) \<and>
   m (Re_init pat) = None \<and>
   (\<forall>self s. snd (Re_match self s) = None \<longrightarrow> m (fst (Re_match self s)) = None) \<and>
   (\<forall>self s. snd (Re_search self s) = None \<longrightarrow> m (fst (Re_search self s)) = None) \<and>
   (\<forall>self s mo. snd (Re_match self s) = Some mo \<longrightarrow>
      Re_len (fst (Re_match self s)) = length (m_groups mo) + 1) \<and>
   (\<forall>self s mo. snd (Re_search self s) = Some mo \<longrightarrow>
      Re_len (fst (Re_search self s)) = length (m_groups mo) + 1) \<and>
   (\<forall>r s mo. snd (Re_match (Re_init (re_compile r)) s) = Some mo \<longrightarrow>
      Re_len (fst (Re_match (Re_init (re_compile r)) s)) = ngroups r + 1) \<and>
   (\<forall>r s mo. snd (Re_search (Re_init (re_compile r)) s) = Some mo \<longrightarrow>
      Re_len (fst (Re_search (Re_init (re_compile r)) s)) = ngroups r + 1)"
proof (intro conjI allI impI)
  fix self :: Re and i assume "m self = None"
  then show "Re_getitem self i = Inl IndexError" by (simp add: Re_getitem_def)
next
  fix self :: Re assume "m self = None"
  then show "Re_len self = 0" by (simp add: Re_len_def)
next
  show "m (Re_init pat) = None" by (simp add: Re_init_def)
next
  fix self s assume "snd (Re_match self s) = None"
  then show "m (fst (Re_match self s)) = None" by (simp add: Re_match_def Let_def)
next
  fix self s assume "snd (Re_search self s) = None"
  then show "m (fst (Re_search self s)) = None" by (simp add: Re_search_def Let_def)
next
  fix self s mo assume "snd (Re_match self s) = Some mo"
  then show "Re_len (fst (Re_match self s)) = length (m_groups mo) + 1"
    by (simp add: Re_len_def Re_match_def Let_def)
next
  fix self s mo assume "snd (Re_search self s) = Some mo"
  then show "Re_len (fst (Re_search self s)) = length (m_groups mo) + 1"
    by (simp add: Re_len_def Re_search_def Let_def)
next
  fix r s mo assume "snd (Re_match (Re_init (re_compile r)) s) = Some mo"
  then show "Re_len (fst (Re_match (Re_init (re_compile r)) s)) = ngroups r + 1"
    by (auto simp: Re_len_def Re_match_def Re_init_def re_compile_def m_groups_def mk_mobj_def
          Let_def dest: first_match_caps_length)
next
  fix r s mo assume "snd (Re_search (Re_init (re_compile r)) s) = Some mo"
  then show "Re_len (fst (Re_search (Re_init (re_compile r)) s)) = ngroups r + 1"
    by (auto simp: Re_len_def Re_search_def Re_init_def re_compile_def m_groups_def mk_mobj_def
          Let_def dest: rx_scan_caps_length)
qed

theorem Re_no_match_access_witness:
  "snd (Re_match (Re_init (re_compile (Seq (Grp 0 (Plus (Lit 97))) (Lit 98)))) (str ''b'')) = None \<and>
   Re_getitem (fst (Re_match (Re_init (re_compile (Seq (Grp 0 (Plus (Lit 97))) (Lit 98)))) (str ''b''))) 1
     = Inl IndexError \<and>
   Re_len (fst (Re_match (Re_init (re_compile (Seq (Grp 0 (Plus (Lit 97))) (Lit 98)))) (str ''b''))) = 0 \<and>
   snd (Re_search (Re_init (re_compile (Seq (Grp 0 (Plus (Lit 97))) (Lit 98)))) (str ''xaab'')) =
     Some \<lparr>m_string = str ''xaab'', m_start = 1, m_end = 4, m_caps = [Some (1, 3)]\<rparr> \<and>
   Re_len (fst (Re_search (Re_init (re_compile (Seq (Grp 0 (Plus (Lit 97))) (Lit 98)))) (str ''xaab''))) = 2"
proof -
  let ?r = "Seq (Grp 0 (Plus (Lit 97))) (Lit 98)"
  let ?re = "Re_init (re_compile ?r)"
  let ?mo = "\<lparr>m_string = str ''xaab'', m_start = 1, m_end = 4, m_caps = [Some (1, 3)]\<rparr>"
  note T = Re_no_match_access[of "re_compile ?r"]
  have a: "snd (Re_match ?re (str ''b'')) = None" by code_simp
  have b: "snd (Re_search ?re (str ''xaab'')) = Some ?mo" by code_simp
  from T a have "m (fst (Re_match ?re (str ''b''))) = None" by blast
  with T have c: "Re_getitem (fst (Re_match ?re (str ''b''))) 1 = Inl IndexError"
    "Re_len (fst (Re_match ?re (str ''b''))) = 0" by blast+
  from T b have "Re_len (fst (Re_search ?re (str ''xaab''))) = ngroups ?r + 1" by blast
  then have d: "Re_len (fst (Re_search ?re (str ''xaab''))) = 2" by (simp add: Plus_def Lit_def)
  from a b c d show ?thesis by blast
qed

section \<open>Properties of the link classifier\<close>

lemma re_sub_class_one_length:
  "length (re_sub_class P (\<lambda>c. [x]) s) = length s"
  by (induction s) (simp_all add: re_sub_class_def)

lemma re_sub_class_one_set:
  "c \<in> set (re_sub_class P (\<lambda>c. [x]) s) \<Longrightarrow> c = x \<or> \<not> P c"
  by (induction s) (auto simp: re_sub_class_def split: if_splits)

lemma cls_w_underscore: "cls_w U 95"
  by (simp add: cls_w_def)

text \<open>
  C10.  \<open>valid_interwiki_key\<close> raises IndexError on the empty string (from \<open>key[0]\<close>);
  on any other input it returns a string of the same length, not empty, made of word
  characters, \<open>+\<close>, \<open>-\<close> and \<open>.\<close> only, that does not start with \<open>-\<close> or \<open>.\<close>.
\<close>

theorem valid_interwiki_key_shape:
  "valid_interwiki_key U [] = Inl IndexError \<and>
   (name \<noteq> [] \<longrightarrow>
      (\<exists>key. valid_interwiki_key U name = Inr key \<and> key \<noteq> [] \<and> length key = length name \<and>
         (\<forall>c \<in> set key. cls_w U c \<or> c = 43 \<or> c = 45 \<or> c = 46) \<and>
         hd key \<noteq> 45 \<and> hd key \<noteq> 46))"
proof (intro conjI impI)
  show "valid_interwiki_key U [] = Inl IndexError"
    by (simp add: valid_interwiki_key_def re_sub_class_def)
next
  assume ne: "name \<noteq> []"
  let ?P = "\<lambda>c. \<not> (cls_w U c \<or> c = 43 \<or> c = 45 \<or> c = 46)"
  let ?k = "re_sub_class ?P (\<lambda>c. [95]) name"
  have len: "length ?k = length name" by (rule re_sub_class_one_length)
  with ne obtain k ks where k: "?k = k # ks" by (cases ?k) auto
  have ok: "\<And>c. c \<in> set ?k \<Longrightarrow> cls_w U c \<or> c = 43 \<or> c = 45 \<or> c = 46"
    using re_sub_class_one_set[of _ ?P 95 name] cls_w_underscore[of U] by blast
  have s: "str ''_'' = [95]" by (simp add: str_def)
  show "\<exists>key. valid_interwiki_key U name = Inr key \<and> key \<noteq> [] \<and> length key = length name \<and>
         (\<forall>c \<in> set key. cls_w U c \<or> c = 43 \<or> c = 45 \<or> c = 46) \<and>
         hd key \<noteq> 45 \<and> hd key \<noteq> 46"
  proof (cases "k = 45 \<or> k = 46")
    case True
    then have "valid_interwiki_key U name = Inr (95 # ks)"
      using k by (simp add: valid_interwiki_key_def s Let_def)
    moreover have "\<forall>c \<in> set (95 # ks). cls_w U c \<or> c = 43 \<or> c = 45 \<or> c = 46"
      using ok k cls_w_underscore[of U] by auto
    moreover have "length (95 # ks) = length name" using len k by simp
    ultimately show ?thesis by auto
  next
    case False
    then have "valid_interwiki_key U name = Inr (k # ks)"
      using k by (simp add: valid_interwiki_key_def s Let_def)
    moreover have "\<forall>c \<in> set (k # ks). cls_w U c \<or> c = 43 \<or> c = 45 \<or> c = 46"
      using ok k by auto
    moreover have "length (k # ks) = length name" using len k by simp
    ultimately show ?thesis using False by auto
  qed
qed

theorem valid_interwiki_key_shape_witness:
  "str ''-bad key'' \<noteq> [] \<and>
   valid_interwiki_key \<lparr>uni_alnum = (\<lambda>c. False), uni_space = (\<lambda>c. False), uni_decimal = (\<lambda>c. None)\<rparr>
     (str ''-bad key'') = Inr (str ''_bad_key'') \<and>
   (\<exists>key. valid_interwiki_key \<lparr>uni_alnum = (\<lambda>c. False), uni_space = (\<lambda>c. False), uni_decimal = (\<lambda>c. None)\<rparr>
      (str ''-bad key'') = Inr key \<and> length key = 8 \<and> hd key \<noteq> 45)"
proof -
  let ?U = "\<lparr>uni_alnum = (\<lambda>c. False), uni_space = (\<lambda>c. False), uni_decimal = (\<lambda>c. None)\<rparr>"
  have ne: "str ''-bad key'' \<noteq> []" by (simp add: str_def)
  have ev: "valid_interwiki_key ?U (str ''-bad key'') = Inr (str ''_bad_key'')" by code_simp
  have len: "length (str ''-bad key'') = 8" by (simp add: str_def)
  from valid_interwiki_key_shape[of ?U "str ''-bad key''"] ne len
  have "\<exists>key. valid_interwiki_key ?U (str ''-bad key'') = Inr key \<and> length key = 8 \<and> hd key \<noteq> 45"
    by auto
  with ne ev show ?thesis by blast
qed

section \<open>Properties of the matcher\<close>

text \<open>A match consumes a prefix of the text it starts from.\<close>

lemma ms_suffix:
  "st' \<in> set (ms r st) \<Longrightarrow>
     \<exists>u. fst (snd st) = u @ fst (snd st') \<and> fst st' = fst st + length u"
proof (induction r st arbitrary: st' rule: ms.induct)
  case (1 P i s g)
  then show ?case by (cases s) (auto split: if_splits)
next
  case (2 st)
  then show ?case by simp
next
  case (3 a b st)
  from "3.prems" obtain x where x: "x \<in> set (ms a st)" "st' \<in> set (ms b x)" by auto
  from "3.IH"(1)[OF x(1)] obtain u where u: "fst (snd st) = u @ fst (snd x)" "fst x = fst st + length u"
    by blast
  from "3.IH"(2)[OF x] obtain v where v: "fst (snd x) = v @ fst (snd st')" "fst st' = fst x + length v"
    by blast
  from u v have "fst (snd st) = (u @ v) @ fst (snd st') \<and> fst st' = fst st + length (u @ v)"
    by simp
  then show ?case by blast
next
  case (4 a b st)
  from "4.prems" have "st' \<in> set (ms a st) \<or> st' \<in> set (ms b st)" by simp
  then show ?case
  proof
    assume "st' \<in> set (ms a st)"
    then show ?thesis by (rule "4.IH"(1))
  next
    assume "st' \<in> set (ms b st)"
    then show ?thesis by (rule "4.IH"(2))
  qed
next
  case (5 a i s g)
  let ?F = "filter (\<lambda>(j, t, h). length t < length s) (ms a (i, s, g))"
  have eq: "ms (Star a) (i, s, g) = concat (map (ms (Star a)) ?F) @ [(i, s, g)]"
    by (rule ms.simps(5))
  from "5.prems" have "st' = (i, s, g) \<or> (\<exists>x \<in> set ?F. st' \<in> set (ms (Star a) x))"
    unfolding eq by (auto simp del: ms.simps)
  then show ?case
  proof
    assume "st' = (i, s, g)"
    then show ?thesis by simp
  next
    assume "\<exists>x \<in> set ?F. st' \<in> set (ms (Star a) x)"
    then obtain x where x: "x \<in> set ?F" "st' \<in> set (ms (Star a) x)" by blast
    from x(1) have m: "x \<in> set (ms a (i, s, g))" by simp
    from "5.IH"(1)[OF m] obtain u where u: "s = u @ fst (snd x)" "fst x = i + length u"
      by auto
    from "5.IH"(2)[OF x] obtain v where v: "fst (snd x) = v @ fst (snd st')" "fst st' = fst x + length v"
      by blast
    from u v have "fst (snd (i, s, g)) = (u @ v) @ fst (snd st') \<and> fst st' = fst (i, s, g) + length (u @ v)"
      by simp
    then show ?thesis by blast
  qed
next
  case (6 n a i s g)
  from "6.prems" obtain j t h where x: "(j, t, h) \<in> set (ms a (i, s, g))" "st' = (j, t, h[n := Some (i, j)])"
    by auto
  from "6.IH"[OF x(1)] x(2) show ?case by simp
next
  case (7 i s g)
  then show ?case by (simp split: if_splits)
next
  case (8 i s g)
  then show ?case by (simp split: if_splits)
qed

lemma first_match_span:
  assumes "first_match r adv i s = Some (j, h)"
  shows "i \<le> j \<and> j \<le> i + length s"
proof -
  from first_match_SomeD[OF assms] obtain t where
    "(j, t, h) \<in> set (ms r (i, s, replicate (ngroups r) None))" by blast
  from ms_suffix[OF this] show ?thesis by auto
qed

section \<open>Properties of \<open>link_type\<close>\<close>

lemma ms_Lit: "ms (Lit c) (i, s, g) = (case s of [] \<Rightarrow> [] | x # xs \<Rightarrow> if x = c then [(Suc i, xs, g)] else [])"
  by (simp add: Lit_def)

lemma ms_Lits3:
  "x \<in> set (ms (Lits [a, b, c]) (i, s, g)) \<Longrightarrow> s = a # b # c # fst (snd x) \<and> snd (snd x) = g"
  by (auto simp: ms_Lit split: list.splits if_splits)

lemma url_scheme_prefix:
  assumes "snd (Re_match (is_url_re U) link) = Some mo"
  shows "\<exists>t. Re_getitem (fst (Re_match (is_url_re U) link)) 1 = Inr (Some t) \<and>
             startswith link (t @ str ''://'')"
proof -
  let ?R = "Seqs [Bol, Grp 0 (scheme_rx U), Lits (str ''://'')]"
  have ng: "ngroups ?R = Suc (ngroups (scheme_rx U)) \<or> ngroups ?R = ngroups (scheme_rx U)"
    by (simp add: str_def Lit_def max_def)
  have str3: "str ''://'' = [58, 47, 47]" by (simp add: str_def)
  from assms obtain j h where fm: "first_match ?R False 0 link = Some (j, h)"
    and mo: "mo = mk_mobj link (0, j, h)"
    by (auto simp: Re_match_def is_url_re_def Re_init_def re_compile_def Let_def)
  let ?g = "replicate (ngroups ?R) None"
  from first_match_SomeD[OF fm] obtain t where m: "(j, t, h) \<in> set (ms ?R (0, link, ?g))" by blast
  have "ms ?R (0, link, ?g) = concat (map (ms (Lits [58, 47, 47]))
          (map (\<lambda>(j, t, h). (j, t, h[0 := Some (0, j)])) (ms (scheme_rx U) (0, link, ?g))))"
    by (simp add: str3 del: Lits.simps ngroups.simps)
  with m obtain j1 t1 h1 where x: "(j1, t1, h1) \<in> set (ms (scheme_rx U) (0, link, ?g))"
    and y: "(j, t, h) \<in> set (ms (Lits [58, 47, 47]) (j1, t1, h1[0 := Some (0, j1)]))"
    by (auto simp del: Lits.simps ngroups.simps ms.simps)
  from ms_Lits3[OF y] have t1: "t1 = 58 # 47 # 47 # t" and h: "h = h1[0 := Some (0, j1)]" by simp_all
  from ms_suffix[OF x] obtain u where u: "link = u @ t1" "j1 = length u" by auto
  from ms_caps_length[OF x] have "length h1 = ngroups ?R" by simp
  moreover have "0 < ngroups ?R" by (simp add: str_def Lit_def)
  ultimately have h0: "h ! 0 = Some (0, j1)" "length h = ngroups ?R" using h by simp_all
  have ngR: "ngroups ?R = 1" by (simp add: scheme_rx_def str_def Lit_def)
  have "Re_getitem (fst (Re_match (is_url_re U) link)) 1 = Inr (Some u)"
    using fm mo h0 u ngR
    by (simp add: Re_match_def is_url_re_def Re_init_def re_compile_def Let_def Re_getitem_def
          m_group_def mk_mobj_def slice_def del: Seqs.simps)
  moreover have "startswith link (u @ str ''://'')"
    using u t1 by (simp add: startswith_def str3)
  ultimately show ?thesis by blast
qed

lemma take3_of_prefix4:
  assumes "startswith link [a, b, c, d]"
  shows "take 3 link = [a, b, c]"
proof -
  from assms have "take (length [a, b, c, d]) link = [a, b, c, d]" by (simp only: startswith_def)
  then have "take 3 (take (length [a, b, c, d]) link) = take 3 [a, b, c, d]" by (rule arg_cong)
  then show ?thesis by (simp add: min_def)
qed

text \<open>
  C4.  \<open>link_type\<close> tries the recognizers in this order and answers with the first that
  applies: a \<open>scheme://\<close> URL (\<open>notebook\<close> for a link that starts with \<open>zim+\<close>, else
  the scheme, the text before \<open>://\<close>), the prefix \<open>file:/\<close>, an email address, a
  \<open>www.\<close> link, \<open>mid:\<close> or \<open>cid:\<close> with an \<open>@\<close> (the three characters \<open>mid\<close> or
  \<open>cid\<close>), a share, a path, an interwiki link, else \<open>page\<close>; with the five examples.
\<close>

theorem link_type_order:
  "(matches (is_url_re U) link \<longrightarrow>
      (if startswith link (str ''zim+'') then link_type U link = Inr (Some (str ''notebook''))
       else \<exists>t. link_type U link = Inr (Some t) \<and> startswith link (t @ str ''://''))) \<and>
   (\<not> matches (is_url_re U) link \<longrightarrow>
      (if startswith link (str ''file:/'') then link_type U link = Inr (Some (str ''file''))
       else if matches (is_email_re U) link then link_type U link = Inr (Some (str ''mailto''))
       else if matches (is_www_link_re U) link then link_type U link = Inr (Some (str ''http''))
       else if 64 \<in> set link \<and> (startswith link (str ''mid:'') \<or> startswith link (str ''cid:''))
         then link_type U link = Inr (Some (take 3 link)) \<and>
              (take 3 link = str ''mid'' \<or> take 3 link = str ''cid'')
       else if matches is_win32_share_re link then link_type U link = Inr (Some (str ''smb''))
       else if matches is_path_re link then link_type U link = Inr (Some (str ''file''))
       else if matches (is_interwiki_re U) link then link_type U link = Inr (Some (str ''interwiki''))
       else link_type U link = Inr (Some (str ''page'')))) \<and>
   link_type U (str ''mailto:foo@bar.com'') = Inr (Some (str ''mailto'')) \<and>
   link_type U (str ''www.example.com'') = Inr (Some (str ''http'')) \<and>
   link_type U (str ''../foo/bar'') = Inr (Some (str ''file'')) \<and>
   link_type U (str ''SomeWikiPage'') = Inr (Some (str ''page'')) \<and>
   link_type U (str ''wp?Some_Page'') = Inr (Some (str ''interwiki''))"
proof (intro conjI impI)
  assume url: "matches (is_url_re U) link"
  then obtain mo where mo: "snd (Re_match (is_url_re U) link) = Some mo"
    by (auto simp: matches_def)
  show "if startswith link (str ''zim+'') then link_type U link = Inr (Some (str ''notebook''))
        else \<exists>t. link_type U link = Inr (Some t) \<and> startswith link (t @ str ''://'')"
    using url url_scheme_prefix[OF mo] by (simp add: link_type_def)
next
  assume nourl: "\<not> matches (is_url_re U) link"
  have m: "str ''mid:'' = [109, 105, 100, 58]" "str ''cid:'' = [99, 105, 100, 58]"
    "str ''mid'' = [109, 105, 100]" "str ''cid'' = [99, 105, 100]"
    by (simp_all add: str_def)
  have "startswith link (str ''mid:'') \<Longrightarrow> take 3 link = str ''mid''"
    unfolding m by (rule take3_of_prefix4)
  moreover have "startswith link (str ''cid:'') \<Longrightarrow> take 3 link = str ''cid''"
    unfolding m by (rule take3_of_prefix4)
  ultimately show "if startswith link (str ''file:/'') then link_type U link = Inr (Some (str ''file''))
       else if matches (is_email_re U) link then link_type U link = Inr (Some (str ''mailto''))
       else if matches (is_www_link_re U) link then link_type U link = Inr (Some (str ''http''))
       else if 64 \<in> set link \<and> (startswith link (str ''mid:'') \<or> startswith link (str ''cid:''))
         then link_type U link = Inr (Some (take 3 link)) \<and>
              (take 3 link = str ''mid'' \<or> take 3 link = str ''cid'')
       else if matches is_win32_share_re link then link_type U link = Inr (Some (str ''smb''))
       else if matches is_path_re link then link_type U link = Inr (Some (str ''file''))
       else if matches (is_interwiki_re U) link then link_type U link = Inr (Some (str ''interwiki''))
       else link_type U link = Inr (Some (str ''page''))"
    using nourl by (auto simp: link_type_def)
next
  show "link_type U (str ''mailto:foo@bar.com'') = Inr (Some (str ''mailto''))" by code_simp
next
  show "link_type U (str ''www.example.com'') = Inr (Some (str ''http''))" by code_simp
next
  show "link_type U (str ''../foo/bar'') = Inr (Some (str ''file''))" by code_simp
next
  show "link_type U (str ''SomeWikiPage'') = Inr (Some (str ''page''))" by code_simp
next
  show "link_type U (str ''wp?Some_Page'') = Inr (Some (str ''interwiki''))" by code_simp
qed

theorem link_type_order_witness:
  "\<not> matches (is_url_re \<lparr>uni_alnum = (\<lambda>c. False), uni_space = (\<lambda>c. False), uni_decimal = (\<lambda>c. None)\<rparr>)
       (str ''cid:part1@example.org'') \<and>
   link_type \<lparr>uni_alnum = (\<lambda>c. False), uni_space = (\<lambda>c. False), uni_decimal = (\<lambda>c. None)\<rparr>
     (str ''cid:part1@example.org'') = Inr (Some (str ''cid'')) \<and>
   matches (is_url_re \<lparr>uni_alnum = (\<lambda>c. False), uni_space = (\<lambda>c. False), uni_decimal = (\<lambda>c. None)\<rparr>)
       (str ''https://zim-wiki.org'') \<and>
   (\<exists>t. link_type \<lparr>uni_alnum = (\<lambda>c. False), uni_space = (\<lambda>c. False), uni_decimal = (\<lambda>c. None)\<rparr>
     (str ''https://zim-wiki.org'') = Inr (Some t) \<and> startswith (str ''https://zim-wiki.org'') (t @ str ''://''))"
proof -
  let ?U = "\<lparr>uni_alnum = (\<lambda>c. False), uni_space = (\<lambda>c. False), uni_decimal = (\<lambda>c. None)\<rparr>"
  let ?l = "str ''cid:part1@example.org''"
  let ?h = "str ''https://zim-wiki.org''"
  have a: "\<not> matches (is_url_re ?U) ?l" by code_simp
  have b: "\<not> startswith ?l (str ''file:/'')" by code_simp
  have c: "\<not> matches (is_email_re ?U) ?l" by code_simp
  have d: "\<not> matches (is_www_link_re ?U) ?l" by code_simp
  have e: "64 \<in> set ?l" by code_simp
  have f: "startswith ?l (str ''cid:'')" by code_simp
  have g: "take 3 ?l = str ''cid''" by code_simp
  from link_type_order[of ?U ?l] a b c d e f
  have "link_type ?U ?l = Inr (Some (take 3 ?l))" by simp
  then have r1: "link_type ?U ?l = Inr (Some (str ''cid''))" using g by simp
  have h: "matches (is_url_re ?U) ?h" by code_simp
  have i: "\<not> startswith ?h (str ''zim+'')" by code_simp
  from link_type_order[of ?U ?h] h i
  have r2: "\<exists>t. link_type ?U ?h = Inr (Some t) \<and> startswith ?h (t @ str ''://'')" by simp
  from a r1 h r2 show ?thesis by blast
qed

section \<open>Properties of \<open>parse_date\<close>\<close>

lemma py_int_nonempty: "py_int U g = Inr n \<Longrightarrow> g \<noteq> []"
  by (auto simp: py_int_def)

text \<open>
  C9.  When the pattern is found with all three numbers \<open>g1\<close>, \<open>g2\<close>, \<open>g3\<close> present, the
  numbers are taken as year, month, day if \<open>g1\<close> has four digits and as day, month, year
  otherwise, and the year \<open>y\<close> of the result is \<open>y + 2000\<close> for \<open>y < 50\<close>, \<open>y + 1900\<close> for
  \<open>50 \<le> y < 1000\<close> and \<open>y\<close> from 1000 on.
\<close>

theorem parse_date_explicit_year:
  assumes "p_search (re_compile (parse_date_rx U)) string = Some mo"
    and "m_groups mo = [Some g1, Some g2, Some g3]"
    and "py_int U g1 = Inr n1" and "py_int U g2 = Inr n2" and "py_int U g3 = Inr n3"
  shows "\<exists>y yr mth dy.
           (y, mth, dy) = (if length g1 = 4 then (n1, n2, n3) else (n3, n2, n1)) \<and>
           parse_date U today_year today_month string = Inr (Some (yr, mth, dy)) \<and>
           (y < 50 \<longrightarrow> yr = y + 2000) \<and>
           (50 \<le> y \<and> y < 1000 \<longrightarrow> yr = y + 1900) \<and>
           (1000 \<le> y \<longrightarrow> yr = y)"
proof -
  from assms(3,4,5) have ne: "g1 \<noteq> []" "g2 \<noteq> []" "g3 \<noteq> []"
    by (auto dest: py_int_nonempty)
  show ?thesis
  proof (cases "length g1 = 4")
    case True
    have "parse_date U today_year today_month string =
            Inr (Some (if n1 < 50 then n1 + 2000 else if n1 < 1000 then n1 + 1900 else n1, n2, n3))"
      using assms ne True by (simp add: parse_date_def parse_date_year_def)
    then show ?thesis using True by auto
  next
    case False
    have "parse_date U today_year today_month string =
            Inr (Some (if n3 < 50 then n3 + 2000 else if n3 < 1000 then n3 + 1900 else n3, n2, n1))"
      using assms ne False by (simp add: parse_date_def parse_date_year_def)
    then show ?thesis using False by auto
  qed
qed

theorem parse_date_explicit_year_witness:
  "parse_date \<lparr>uni_alnum = (\<lambda>c. False), uni_space = (\<lambda>c. False), uni_decimal = (\<lambda>c. None)\<rparr>
     2026 11 (str ''Journal 2024-03-15'') = Inr (Some (2024, 3, 15)) \<and>
   parse_date \<lparr>uni_alnum = (\<lambda>c. False), uni_space = (\<lambda>c. False), uni_decimal = (\<lambda>c. None)\<rparr>
     2026 11 (str ''15.3.99'') = Inr (Some (1999, 3, 15)) \<and>
   parse_date \<lparr>uni_alnum = (\<lambda>c. False), uni_space = (\<lambda>c. False), uni_decimal = (\<lambda>c. None)\<rparr>
     2026 11 (str ''1/2/03'') = Inr (Some (2003, 2, 1))"
proof -
  let ?U = "\<lparr>uni_alnum = (\<lambda>c. False), uni_space = (\<lambda>c. False), uni_decimal = (\<lambda>c. None)\<rparr>"
  let ?s1 = "str ''Journal 2024-03-15''"
  let ?m1 = "\<lparr>m_string = ?s1, m_start = 8, m_end = 18, m_caps = [Some (8, 12), Some (13, 15), Some (16, 18)]\<rparr>"
  have a1: "p_search (re_compile (parse_date_rx ?U)) ?s1 = Some ?m1" by code_simp
  have b1: "m_groups ?m1 = [Some (str ''2024''), Some (str ''03''), Some (str ''15'')]" by code_simp
  have c1: "py_int ?U (str ''2024'') = Inr 2024" "py_int ?U (str ''03'') = Inr 3"
    "py_int ?U (str ''15'') = Inr 15" by code_simp+
  have l1: "length (str ''2024'') = 4" by code_simp
  from parse_date_explicit_year[OF a1 b1 c1, of 2026 11] l1
  have r1: "parse_date ?U 2026 11 ?s1 = Inr (Some (2024, 3, 15))" by auto
  let ?s2 = "str ''15.3.99''"
  let ?m2 = "\<lparr>m_string = ?s2, m_start = 0, m_end = 7, m_caps = [Some (0, 2), Some (3, 4), Some (5, 7)]\<rparr>"
  have a2: "p_search (re_compile (parse_date_rx ?U)) ?s2 = Some ?m2" by code_simp
  have b2: "m_groups ?m2 = [Some (str ''15''), Some (str ''3''), Some (str ''99'')]" by code_simp
  have c2: "py_int ?U (str ''15'') = Inr 15" "py_int ?U (str ''3'') = Inr 3"
    "py_int ?U (str ''99'') = Inr 99" by code_simp+
  have l2: "length (str ''15'') \<noteq> 4" by code_simp
  from parse_date_explicit_year[OF a2 b2 c2, of 2026 11] l2
  have r2: "parse_date ?U 2026 11 ?s2 = Inr (Some (1999, 3, 15))" by auto
  let ?s3 = "str ''1/2/03''"
  let ?m3 = "\<lparr>m_string = ?s3, m_start = 0, m_end = 6, m_caps = [Some (0, 1), Some (2, 3), Some (4, 6)]\<rparr>"
  have a3: "p_search (re_compile (parse_date_rx ?U)) ?s3 = Some ?m3" by code_simp
  have b3: "m_groups ?m3 = [Some (str ''1''), Some (str ''2''), Some (str ''03'')]" by code_simp
  have c3: "py_int ?U (str ''1'') = Inr 1" "py_int ?U (str ''2'') = Inr 2"
    "py_int ?U (str ''03'') = Inr 3" by code_simp+
  have l3: "length (str ''1'') \<noteq> 4" by code_simp
  from parse_date_explicit_year[OF a3 b3 c3, of 2026 11] l3
  have r3: "parse_date ?U 2026 11 ?s3 = Inr (Some (2003, 2, 1))" by auto
  from r1 r2 r3 show ?thesis by blast
qed

section \<open>Properties of \<open>split_escaped_string\<close>\<close>

text \<open>
  C6.  The example of the claim holds; but the separator of \<open>a\<close>, backslash, newline,
  \<open>,\<close>, \<open>b\<close> follows a newline, so no backslash comes right before it, and the pieces are
  joined all the same: \<open>$\<close> in \<open>\\+$\<close> also matches before a final newline.
\<close>

theorem split_escaped_string_newline:
  "split_escaped_string (str ''a'' @ [92] @ str '',b,c'') (str '','') =
     Inr [str ''a'' @ [92] @ str '',b'', str ''c''] \<and>
   split_escaped_string (str ''a'' @ [92, 10] @ str '',b'') (str '','') =
     Inr [str ''a'' @ [92, 10] @ str '',b''] \<and>
   split_escaped_string (str ''a'' @ [92, 10] @ str '',b'') (str '','') \<noteq>
     Inr [str ''a'' @ [92, 10], str ''b'']"
  by code_simp

section \<open>Properties of \<open>sublist\<close>\<close>

lemma Re_same_p: "p s1 = p s2 \<Longrightarrow> s1\<lparr>m := v\<rparr> = (s2 :: Re)\<lparr>m := v\<rparr>"
  by (cases s1, cases s2) simp

lemma sublist_matches_same_p:
  "p s1 = p s2 \<Longrightarrow>
     fst (sublist_matches repl item mos pos s1) = fst (sublist_matches repl item mos pos s2) \<and>
     fst (snd (sublist_matches repl item mos pos s1)) = fst (snd (sublist_matches repl item mos pos s2))"
proof (cases mos)
  case Nil
  then show ?thesis by simp
next
  case (Cons mo rest)
  assume "p s1 = p s2"
  then have "s1\<lparr>m := Some mo\<rparr> = s2\<lparr>m := Some mo\<rparr>" by (rule Re_same_p)
  then show ?thesis using Cons by (simp add: Let_def)
qed

lemma sublist_matches_p:
  "p (snd (snd (sublist_matches repl item mos pos self))) = p self"
  by (induction mos arbitrary: pos self) (simp_all add: Let_def case_prod_unfold)

lemma Re_sublist_p: "p (fst (Re_sublist self repl list)) = p self"
proof (induction self repl list rule: Re_sublist.induct)
  case (3 self repl item list)
  obtain out pos self' where sm:
    "sublist_matches repl item (p_finditer (p self) item) 0 self = (out, pos, self')"
    by (cases "sublist_matches repl item (p_finditer (p self) item) 0 self") auto
  have "p self' = p self"
    using sublist_matches_p[of repl item "p_finditer (p self) item" 0 self] sm by simp
  moreover have "p (fst (Re_sublist self' repl list)) = p self'"
    using "3.IH"[of "(out, pos, self')" out "(pos, self')" pos self'] sm by simp
  ultimately show ?case using sm by (simp add: Let_def case_prod_unfold)
qed (simp_all add: Let_def case_prod_unfold)

lemma Re_sublist_same_p:
  "p s1 = p s2 \<Longrightarrow> snd (Re_sublist s1 repl list) = snd (Re_sublist s2 repl list)"
proof (induction list arbitrary: s1 s2)
  case Nil
  then show ?case by simp
next
  case (Cons a list)
  show ?case
  proof (cases a)
    case (Obj x)
    with Cons.IH[OF Cons.prems] show ?thesis by (simp add: Let_def case_prod_unfold)
  next
    case (Str item)
    obtain o1 p1 r1 where sm1:
      "sublist_matches repl item (p_finditer (p s1) item) 0 s1 = (o1, p1, r1)"
      by (cases "sublist_matches repl item (p_finditer (p s1) item) 0 s1") auto
    obtain o2 p2 r2 where sm2:
      "sublist_matches repl item (p_finditer (p s2) item) 0 s2 = (o2, p2, r2)"
      by (cases "sublist_matches repl item (p_finditer (p s2) item) 0 s2") auto
    from sublist_matches_same_p[OF Cons.prems, of repl item "p_finditer (p s1) item" 0] sm1 sm2
      Cons.prems
    have eq: "o1 = o2" "p1 = p2" by simp_all
    have "p r1 = p s1" using sublist_matches_p[of repl item "p_finditer (p s1) item" 0 s1] sm1 by simp
    moreover have "p r2 = p s2" using sublist_matches_p[of repl item "p_finditer (p s2) item" 0 s2] sm2 by simp
    ultimately have "p r1 = p r2" using Cons.prems by simp
    from Cons.IH[OF this] have "snd (Re_sublist r1 repl list) = snd (Re_sublist r2 repl list)" .
    then show ?thesis using Str sm1 sm2 eq by (simp add: Let_def case_prod_unfold)
  qed
qed

lemma Re_sublist_Cons:
  "snd (Re_sublist self repl (a # list)) =
     snd (Re_sublist self repl [a]) @ snd (Re_sublist self repl list)"
proof (cases a)
  case (Obj x)
  then show ?thesis by (simp add: Let_def case_prod_unfold)
next
  case (Str item)
  obtain out pos self' where sm:
    "sublist_matches repl item (p_finditer (p self) item) 0 self = (out, pos, self')"
    by (cases "sublist_matches repl item (p_finditer (p self) item) 0 self") auto
  have "p self' = p self"
    using sublist_matches_p[of repl item "p_finditer (p self) item" 0 self] sm by simp
  from Re_sublist_same_p[OF this]
  have "snd (Re_sublist self' repl list) = snd (Re_sublist self repl list)" .
  then show ?thesis using Str sm by (simp add: Let_def case_prod_unfold)
qed

lemma Re_sublist_concat:
  "snd (Re_sublist self repl list) =
     concat (map (\<lambda>it. case it of Obj x \<Rightarrow> [Obj x] | Str s \<Rightarrow> snd (Re_sublist self repl [Str s])) list)"
proof (induction list)
  case Nil
  then show ?case by simp
next
  case (Cons a list)
  have "snd (Re_sublist self repl [a]) =
          (case a of Obj x \<Rightarrow> [Obj x] | Str s \<Rightarrow> snd (Re_sublist self repl [Str s]))"
    by (cases a) simp_all
  with Cons Re_sublist_Cons[of self repl a list] show ?case by simp
qed

lemma render_upd: "render (self\<lparr>m := v\<rparr>) repl = render self repl"
  by (rule ext) (simp add: render_def split: item.splits)

lemma sublist_matches_render:
  "fst (sublist_matches repl item mos pos self) =
     map (render self repl) (fst (sublist_matches (\<lambda>re. Obj (m re)) item mos pos self)) \<and>
   fst (snd (sublist_matches repl item mos pos self)) =
     fst (snd (sublist_matches (\<lambda>re. Obj (m re)) item mos pos self))"
proof (induction mos arbitrary: pos self)
  case Nil
  then show ?case by simp
next
  case (Cons mo mos)
  from Cons[of "m_end mo" "self\<lparr>m := Some mo\<rparr>"] show ?case
    by (simp add: Let_def case_prod_unfold render_upd) (simp add: render_def)
qed

lemma Re_sublist_render:
  "snd (Re_sublist self repl [Str s]) =
     map (render self repl) (snd (Re_sublist self (\<lambda>re. Obj (m re)) [Str s]))"
  using sublist_matches_render[of repl s "p_finditer (p self) s" 0 self]
  by (simp add: Let_def case_prod_unfold render_def)

lemma slice_tile:
  "a \<le> b \<Longrightarrow> slice s a b @ drop b s = drop a s"
proof -
  assume "a \<le> b"
  then have "drop b s = drop (b - a) (drop a s)" by simp
  then show ?thesis unfolding slice_def by (metis append_take_drop_id)
qed

lemma slice_nonempty: "a < b \<Longrightarrow> a < length s \<Longrightarrow> slice s a b \<noteq> []"
  by (simp add: slice_def)

lemma sublist_matches_tile:
  "spans_ok item pos mos \<Longrightarrow>
     concat (map item_text (fst (sublist_matches (\<lambda>re. Obj (m re)) item mos pos self)))
       @ drop (fst (snd (sublist_matches (\<lambda>re. Obj (m re)) item mos pos self))) item = drop pos item \<and>
     Str [] \<notin> set (fst (sublist_matches (\<lambda>re. Obj (m re)) item mos pos self)) \<and>
     fst (snd (sublist_matches (\<lambda>re. Obj (m re)) item mos pos self)) \<le> length item"
proof (induction mos arbitrary: pos self)
  case Nil
  then show ?case by simp
next
  case (Cons mo mos)
  let ?self = "self\<lparr>m := Some mo\<rparr>"
  let ?R = "sublist_matches (\<lambda>re. Obj (m re)) item mos (m_end mo) ?self"
  from Cons.prems have ok: "m_string mo = item" "pos \<le> m_start mo" "m_start mo \<le> m_end mo"
    "m_end mo \<le> length item" "spans_ok item (m_end mo) mos" by simp_all
  from Cons.IH[OF ok(5), of ?self]
  have ih: "concat (map item_text (fst ?R)) @ drop (fst (snd ?R)) item = drop (m_end mo) item"
    "Str [] \<notin> set (fst ?R)" "fst (snd ?R) \<le> length item" by simp_all
  have g0: "item_text (Obj (Some mo)) = slice item (m_start mo) (m_end mo)"
    using ok(1) by (simp add: item_text_def m_group0_def)
  have t1: "slice item (m_start mo) (m_end mo) @ drop (m_end mo) item = drop (m_start mo) item"
    using ok(3) by (rule slice_tile)
  have t2: "slice item pos (m_start mo) @ drop (m_start mo) item = drop pos item"
    using ok(2) by (rule slice_tile)
  show ?case
  proof (cases "pos < m_start mo")
    case True
    then have ne: "slice item pos (m_start mo) \<noteq> []"
      using ok by (intro slice_nonempty) simp_all
    have "concat (map item_text (fst (sublist_matches (\<lambda>re. Obj (m re)) item (mo # mos) pos self)))
            @ drop (fst (snd ?R)) item
          = slice item pos (m_start mo) @ slice item (m_start mo) (m_end mo)
            @ (concat (map item_text (fst ?R)) @ drop (fst (snd ?R)) item)"
      using True g0 by (simp add: Let_def case_prod_unfold item_text_def)
    also have "\<dots> = drop pos item" using ih(1) t1 t2 by simp
    finally show ?thesis using True ne ih(2,3) by (simp add: Let_def case_prod_unfold)
  next
    case False
    with ok(2) have eq: "pos = m_start mo" by simp
    have "concat (map item_text (fst (sublist_matches (\<lambda>re. Obj (m re)) item (mo # mos) pos self)))
            @ drop (fst (snd ?R)) item
          = slice item (m_start mo) (m_end mo)
            @ (concat (map item_text (fst ?R)) @ drop (fst (snd ?R)) item)"
      using False g0 by (simp add: Let_def case_prod_unfold)
    also have "\<dots> = drop pos item" using ih(1) t1 eq by simp
    finally show ?thesis using False ih(2,3) by (simp add: Let_def case_prod_unfold)
  qed
qed

lemma Re_sublist_tile:
  assumes "spans_ok s 0 (p_finditer (p self) s)"
  shows "concat (map item_text (snd (Re_sublist self (\<lambda>re. Obj (m re)) [Str s]))) = s \<and>
         Str [] \<notin> set (snd (Re_sublist self (\<lambda>re. Obj (m re)) [Str s]))"
proof -
  let ?R = "sublist_matches (\<lambda>re. Obj (m re)) s (p_finditer (p self) s) 0 self"
  from sublist_matches_tile[OF assms, of self]
  have t: "concat (map item_text (fst ?R)) @ drop (fst (snd ?R)) s = s"
    "Str [] \<notin> set (fst ?R)" "fst (snd ?R) \<le> length s" by simp_all
  have out: "snd (Re_sublist self (\<lambda>re. Obj (m re)) [Str s]) =
          fst ?R @ (if fst (snd ?R) < length s then [Str (drop (fst (snd ?R)) s)] else [])"
    by (simp add: Let_def case_prod_unfold)
  show ?thesis
  proof (cases "fst (snd ?R) < length s")
    case True
    then show ?thesis using t out by (simp add: item_text_def)
  next
    case False
    with t(3) have "drop (fst (snd ?R)) s = []" by simp
    then show ?thesis using t out False by simp
  qed
qed

lemma first_match_adv:
  assumes "first_match r True i s = Some (j, h)"
  shows "i < j"
proof -
  let ?xs = "filter (\<lambda>(j, t, h). \<not> True \<or> i < j) (ms r (i, s, replicate (ngroups r) None))"
  show ?thesis
  proof (cases ?xs)
    case Nil
    with assms show ?thesis unfolding first_match_def by simp
  next
    case (Cons x ys)
    obtain j' t' h' where x: "x = (j', t', h')" by (cases x)
    with assms Cons have "j' = j" unfolding first_match_def by simp
    moreover from x Cons have "(j', t', h') \<in> set ?xs" by simp
    ultimately show ?thesis by simp
  qed
qed

lemma at_index_cases:
  "at_index r i s = [] \<or>
   (\<exists>j h. at_index r i s = [(j, h)] \<and> i \<le> j \<and> j \<le> i + length s) \<or>
   (\<exists>h j2 h2. at_index r i s = [(i, h), (j2, h2)] \<and> i < j2 \<and> j2 \<le> i + length s)"
proof (cases "first_match r False i s")
  case None
  then show ?thesis by (simp add: at_index_def)
next
  case (Some x)
  obtain j h where x: "x = (j, h)" by (cases x)
  from first_match_span[of r False i s j h] Some x have sp: "i \<le> j" "j \<le> i + length s" by simp_all
  show ?thesis
  proof (cases "i < j")
    case True
    then show ?thesis using Some x sp by (simp add: at_index_def)
  next
    case False
    with sp have ji: "j = i" by simp
    show ?thesis
    proof (cases "first_match r True i s")
      case None
      then show ?thesis using Some x ji by (simp add: at_index_def)
    next
      case (Some y)
      obtain j2 h2 where y: "y = (j2, h2)" by (cases y)
      from first_match_adv[of r i s j2 h2] first_match_span[of r True i s j2 h2] Some y
      have "i < j2" "j2 \<le> i + length s" by simp_all
      then show ?thesis using Some y \<open>first_match r False i s = Some x\<close> x ji
        by (simp add: at_index_def)
    qed
  qed
qed

lemma rx_iter_spans_ok:
  "lo \<le> length s \<Longrightarrow> length s = i + length rest \<Longrightarrow>
     spans_ok s lo (map (mk_mobj s) (rx_iter r lo i rest))"
proof (induction rest arbitrary: lo i)
  case Nil
  then have le: "\<not> i < lo" by simp
  from at_index_cases[of r i "[]"] show ?case
  proof (elim disjE exE conjE)
    assume "at_index r i [] = []"
    then show ?thesis using Nil by simp
  next
    fix j h assume "at_index r i [] = [(j, h)]" "i \<le> j" "j \<le> i + length ([]::pystr)"
    then show ?thesis using Nil le by (simp add: mk_mobj_def)
  next
    fix h j2 h2 assume "at_index r i [] = [(i, h), (j2, h2)]" "i < j2" "j2 \<le> i + length ([]::pystr)"
    then show ?thesis by simp
  qed
next
  case (Cons c cs)
  have len: "length s = Suc i + length cs" using Cons.prems by simp
  show ?case
  proof (cases "i < lo")
    case True
    then show ?thesis using Cons.IH[OF Cons.prems(1) len] by (simp add: Let_def)
  next
    case False
    from at_index_cases[of r i "c # cs"] show ?thesis
    proof (elim disjE exE conjE)
      assume "at_index r i (c # cs) = []"
      then show ?thesis using False Cons.IH[OF Cons.prems(1) len] by (simp add: Let_def)
    next
      fix j h assume a: "at_index r i (c # cs) = [(j, h)]" "i \<le> j" "j \<le> i + length (c # cs)"
      then have "j \<le> length s" using Cons.prems by simp
      from Cons.IH[OF this len] a False Cons.prems show ?thesis
        by (simp add: Let_def mk_mobj_def)
    next
      fix h j2 h2 assume a: "at_index r i (c # cs) = [(i, h), (j2, h2)]" "i < j2"
        "j2 \<le> i + length (c # cs)"
      then have "j2 \<le> length s" using Cons.prems by simp
      from Cons.IH[OF this len] a False Cons.prems show ?thesis
        by (simp add: Let_def mk_mobj_def)
    qed
  qed
qed

lemma re_compile_spans_ok: "spans_ok s 0 (p_finditer (re_compile r) s)"
  using rx_iter_spans_ok[of 0 s 0 s r] by (simp add: re_compile_def)

lemma sublist_matches_objs:
  "[mo. Obj mo \<leftarrow> fst (sublist_matches (\<lambda>re. Obj (m re)) item mos pos self)] = map Some mos"
proof (induction mos arbitrary: pos self)
  case Nil
  then show ?case by simp
next
  case (Cons mo mos)
  from Cons[of "m_end mo" "self\<lparr>m := Some mo\<rparr>"] show ?case
    by (simp add: Let_def case_prod_unfold)
qed

lemma Re_sublist_objs:
  "[mo. Obj mo \<leftarrow> snd (Re_sublist self (\<lambda>re. Obj (m re)) [Str s])] = map Some (p_finditer (p self) s)"
  using sublist_matches_objs[of s "p_finditer (p self) s" 0 self]
  by (simp add: Let_def case_prod_unfold)

text \<open>
  C7.  \<open>sublist\<close> works item by item and keeps the order: an item that is no string
  stays as it is, a string \<open>s\<close> gives the pieces of \<open>s\<close> with, in place of every match,
  what \<open>repl\<close> returns for the object holding that match (\<open>render\<close>).  The pieces are
  read off the run in which \<open>repl\<close> hands back the match: its matches are those of
  \<open>finditer\<close> in order, and when these are ordered spans of \<open>s\<close> (as those of a compiled
  pattern are) the fragments and the matched texts together spell \<open>s\<close>, and no fragment
  is empty.
\<close>

theorem Re_sublist_fragments:
  "snd (Re_sublist self repl list) =
     concat (map (\<lambda>it. case it of
                          Obj x \<Rightarrow> [Obj x]
                        | Str s \<Rightarrow> map (render self repl)
                                    (snd (Re_sublist self (\<lambda>re. Obj (m re)) [Str s]))) list) \<and>
   (\<forall>s. [mo. Obj mo \<leftarrow> snd (Re_sublist self (\<lambda>re. Obj (m re)) [Str s])] =
          map Some (p_finditer (p self) s)) \<and>
   (\<forall>s. spans_ok s 0 (p_finditer (p self) s) \<longrightarrow>
      concat (map item_text (snd (Re_sublist self (\<lambda>re. Obj (m re)) [Str s]))) = s \<and>
      Str [] \<notin> set (snd (Re_sublist self (\<lambda>re. Obj (m re)) [Str s]))) \<and>
   (\<forall>r s. spans_ok s 0 (p_finditer (re_compile r) s))"
proof (intro conjI allI impI)
  have "\<And>it. (case it of Obj x \<Rightarrow> [Obj x] | Str s \<Rightarrow> snd (Re_sublist self repl [Str s])) =
              (case it of Obj x \<Rightarrow> [Obj x]
               | Str s \<Rightarrow> map (render self repl) (snd (Re_sublist self (\<lambda>re. Obj (m re)) [Str s])))"
    using Re_sublist_render[of self repl] by (simp split: item.splits)
  then show "snd (Re_sublist self repl list) =
     concat (map (\<lambda>it. case it of
                          Obj x \<Rightarrow> [Obj x]
                        | Str s \<Rightarrow> map (render self repl)
                                    (snd (Re_sublist self (\<lambda>re. Obj (m re)) [Str s]))) list)"
    using Re_sublist_concat[of self repl list] by simp
next
  fix s show "[mo. Obj mo \<leftarrow> snd (Re_sublist self (\<lambda>re. Obj (m re)) [Str s])] =
          map Some (p_finditer (p self) s)" by (rule Re_sublist_objs)
next
  fix s assume "spans_ok s 0 (p_finditer (p self) s)"
  from Re_sublist_tile[OF this]
  show "concat (map item_text (snd (Re_sublist self (\<lambda>re. Obj (m re)) [Str s]))) = s" by simp
next
  fix s assume "spans_ok s 0 (p_finditer (p self) s)"
  from Re_sublist_tile[OF this]
  show "Str [] \<notin> set (snd (Re_sublist self (\<lambda>re. Obj (m re)) [Str s]))" by simp
next
  fix r s show "spans_ok s 0 (p_finditer (re_compile r) s)" by (rule re_compile_spans_ok)
qed

theorem Re_sublist_fragments_witness:
  "snd (Re_sublist (Re_init (re_compile (Plus (Cls is_digit))))
        (\<lambda>re. case m re of None \<Rightarrow> Obj 0 | Some mo \<Rightarrow> Obj (length (m_group0 mo)))
        [Str (str ''ab12cd345''), Obj 7, Str (str ''''), Str (str ''6x'')]) =
     [Str (str ''ab''), Obj 2, Str (str ''cd''), Obj 3, Obj 7, Obj 1, Str (str ''x'')] \<and>
   spans_ok (str ''ab12cd345'') 0 (p_finditer (p (Re_init (re_compile (Plus (Cls is_digit))))) (str ''ab12cd345'')) \<and>
   concat (map item_text (snd (Re_sublist (Re_init (re_compile (Plus (Cls is_digit))))
        (\<lambda>re. Obj (m re)) [Str (str ''ab12cd345'')]))) = str ''ab12cd345'' \<and>
   Str [] \<notin> set (snd (Re_sublist (Re_init (re_compile (Plus (Cls is_digit))))
        (\<lambda>re. Obj (m re)) [Str (str ''ab12cd345'')]))"
proof -
  let ?re = "Re_init (re_compile (Plus (Cls is_digit)))"
  let ?s = "str ''ab12cd345''"
  have ev: "snd (Re_sublist ?re
        (\<lambda>re. case m re of None \<Rightarrow> Obj 0 | Some mo \<Rightarrow> Obj (length (m_group0 mo)))
        [Str ?s, Obj 7, Str (str ''''), Str (str ''6x'')]) =
     [Str (str ''ab''), Obj 2, Str (str ''cd''), Obj 3, Obj 7, Obj 1, Str (str ''x'')]"
    by code_simp
  have ok: "spans_ok ?s 0 (p_finditer (p ?re) ?s)" by code_simp
  from Re_sublist_fragments[of ?re "\<lambda>re. Obj (m re)" "[]"] ok
  have "concat (map item_text (snd (Re_sublist ?re (\<lambda>re. Obj (m re)) [Str ?s]))) = ?s \<and>
      Str [] \<notin> set (snd (Re_sublist ?re (\<lambda>re. Obj (m re)) [Str ?s]))"
    by blast
  with ev ok show ?thesis by blast
qed

section \<open>Properties of the backslash escapes\<close>

lemma unescape_string_plain:
  "c \<noteq> 92 \<Longrightarrow> unescape_string (c # rest) = c # unescape_string rest"
  by (cases rest) simp_all

lemma unescape_string_pair:
  "c \<noteq> 10 \<Longrightarrow> unescape_string (92 # c # rest) = unescape_match [92, c] @ unescape_string rest"
  by (simp add: cls_dot_def)

lemma escape_string_Cons:
  "escape_string (c # s) chars =
     (if c = 10 \<or> c = 13 \<or> c = 9 \<or> c = 92 \<or> c \<in> set chars then escape_match c else [c])
     @ escape_string s chars"
  by (simp add: escape_string_def re_sub_class_def)

text \<open>
  C3, as the code has it.  For a text without carriage return and extra characters that
  are none of backslash, newline, carriage return, tab, \<open>n\<close>, \<open>t\<close>, \<open>]\<close> and \<open>-\<close>,
  unescaping the escaped text gives the text back.
\<close>

theorem unescape_escape_string:
  assumes "13 \<notin> set T"
    and "plain_class_chars chars"
    and "10 \<notin> set chars" and "13 \<notin> set chars" and "9 \<notin> set chars"
    and "110 \<notin> set chars" and "116 \<notin> set chars"
  shows "unescape_string (escape_string T chars) = T"
  using assms(1)
proof (induction T)
  case Nil
  then show ?case by (simp add: escape_string_def re_sub_class_def)
next
  case (Cons c T)
  then have ih: "unescape_string (escape_string T chars) = T" and c13: "c \<noteq> 13" by simp_all
  from assms(2) have c92: "92 \<notin> set chars" by (simp add: plain_class_chars_def)
  show ?case
  proof (cases "c = 10 \<or> c = 9 \<or> c = 92 \<or> c \<in> set chars")
    case True
    then consider "c = 10" | "c = 9" | "c = 92" | "c \<in> set chars" "c \<noteq> 10" "c \<noteq> 9" "c \<noteq> 92"
      by blast
    then show ?thesis
    proof cases
      case 1
      then show ?thesis using ih
        by (simp add: escape_string_Cons escape_match_def unescape_match_def cls_dot_def)
    next
      case 2
      then show ?thesis using ih
        by (simp add: escape_string_Cons escape_match_def unescape_match_def cls_dot_def)
    next
      case 3
      then show ?thesis using ih
        by (simp add: escape_string_Cons escape_match_def unescape_match_def cls_dot_def)
    next
      case 4
      with assms have "c \<noteq> 110" "c \<noteq> 116" by auto
      with 4 c13 show ?thesis using ih
        by (simp add: escape_string_Cons escape_match_def unescape_match_def cls_dot_def)
    qed
  next
    case False
    then have "escape_string (c # T) chars = c # escape_string T chars"
      using c13 by (simp add: escape_string_Cons)
    moreover from False have "c \<noteq> 92" by simp
    ultimately show ?thesis using ih by (simp add: unescape_string_plain)
  qed
qed

theorem unescape_escape_string_witness:
  "13 \<notin> set (str ''a,b'' @ [9, 92, 10] @ str ''c;n'') \<and> plain_class_chars (str '',;'') \<and>
   escape_string (str ''a,b'' @ [9, 92, 10] @ str ''c;n'') (str '',;'') =
     str ''a'' @ [92] @ str '',b'' @ [92] @ str ''t'' @ [92, 92, 92] @ str ''nc'' @ [92] @ str '';n'' \<and>
   unescape_string (escape_string (str ''a,b'' @ [9, 92, 10] @ str ''c;n'') (str '',;'')) =
     str ''a,b'' @ [9, 92, 10] @ str ''c;n''"
proof -
  let ?T = "str ''a,b'' @ [9, 92, 10] @ str ''c;n''"
  let ?C = "str '',;''"
  have a: "13 \<notin> set ?T" by (simp add: str_def)
  have b: "plain_class_chars ?C" by (simp add: str_def plain_class_chars_def)
  have c: "10 \<notin> set ?C" "13 \<notin> set ?C" "9 \<notin> set ?C" "110 \<notin> set ?C" "116 \<notin> set ?C"
    by (simp_all add: str_def)
  have d: "escape_string ?T ?C =
     str ''a'' @ [92] @ str '',b'' @ [92] @ str ''t'' @ [92, 92, 92] @ str ''nc'' @ [92] @ str '';n''"
    by (simp add: str_def escape_string_def re_sub_class_def escape_match_def)
  from unescape_escape_string[OF a b c] a b d show ?thesis by blast
qed

text \<open>
  The claim as stated fails: a carriage return is escaped to backslash \<open>r\<close>, which
  unescapes to \<open>r\<close>; and with \<open>n\<close> among the extra characters an \<open>n\<close> comes back as a
  newline.
\<close>

theorem unescape_escape_string_counterexample:
  "unescape_string (escape_string [13] []) = str ''r'' \<and>
   unescape_string (escape_string [13] []) \<noteq> [13] \<and>
   unescape_string (escape_string (str ''n'') (str ''n'')) \<noteq> str ''n''"
  by (simp add: str_def escape_string_def re_sub_class_def escape_match_def unescape_match_def cls_dot_def)

end
